theory Spec2Isabelle
  imports
    Main
    "HOL-Library.Word"
    "HOL-Library.Option_ord"
    "HOL-Library.Product_Lexorder"
    "HOL-Library.Multiset"
begin

section \<open>JavaScript strings and the fence-stripping sanitizer\<close>

text \<open>
  A JavaScript string is a sequence of UTF-16 code units. Column values and document
  fields are text or \<open>null\<close> (SQL \<open>NULL\<close>): \<open>None\<close> is null.
\<close>

type_synonym code_unit = "16 word"
type_synonym jsstring = "code_unit list"
type_synonym val = "jsstring option"

text \<open>An ASCII literal as a JavaScript string (one code unit per character).\<close>

definition utf16 :: "string \<Rightarrow> jsstring" where
  "utf16 cs = map of_char cs"

text \<open>
  The code units matched by \<open>\s\<close> and removed by \<open>String.prototype.trim\<close>: ECMAScript's
  WhiteSpace and LineTerminator productions (TAB, LF, VT, FF, CR, SP, NBSP, the Zs
  category, LS, PS and ZWNBSP). Both use the same set.
\<close>

definition is_space :: "code_unit \<Rightarrow> bool" where
  "is_space c \<longleftrightarrow>
     c \<in> {0x09, 0x0A, 0x0B, 0x0C, 0x0D, 0x20, 0xA0, 0x1680,
          0x2028, 0x2029, 0x202F, 0x205F, 0x3000, 0xFEFF}
     \<or> (0x2000 \<le> c \<and> c \<le> 0x200A)"

definition trim :: "jsstring \<Rightarrow> jsstring" where
  "trim t = rev (dropWhile is_space (rev (dropWhile is_space t)))"

text \<open>
  Matching under the \<open>i\<close> flag canonicalises both code units with \<open>toUpperCase\<close>; a code
  unit outside ASCII never canonicalises to an ASCII one. The patterns of the source are
  ASCII (backticks and \<open>json\<close>), so upper-casing ASCII letters decides every comparison.
\<close>

definition ascii_upper :: "code_unit \<Rightarrow> code_unit" where
  "ascii_upper c = (if 0x61 \<le> c \<and> c \<le> 0x7A then c - 0x20 else c)"

definition eq_ci :: "code_unit \<Rightarrow> code_unit \<Rightarrow> bool" where
  "eq_ci p c \<longleftrightarrow> ascii_upper c = ascii_upper p"

definition fence :: jsstring where
  "fence = [0x60, 0x60, 0x60]"

definition tag_json :: jsstring where
  "tag_json = [0x6A, 0x73, 0x6F, 0x6E]"

text \<open>A literal of the pattern matched at the head of the text; the rest of the text.\<close>

fun match_ci :: "jsstring \<Rightarrow> jsstring \<Rightarrow> jsstring option" where
  "match_ci [] t = Some t"
| "match_ci (p # ps) [] = None"
| "match_ci (p # ps) (c # cs) = (if eq_ci p c then match_ci ps cs else None)"

text \<open>
  \<open>([\s\S]*?)```\<close>: the lazy group takes as few code units as possible (any code unit
  matches \<open>[\s\S]\<close>) until a closing fence matches; the result is the captured group.
\<close>

fun lazy_until_fence :: "jsstring \<Rightarrow> jsstring option" where
  "lazy_until_fence [] = None"
| "lazy_until_fence (c # cs) =
     (if match_ci fence (c # cs) \<noteq> None then Some []
      else map_option ((#) c) (lazy_until_fence cs))"

text \<open>
  \<open>\s*\<close> followed by the continuation \<open>k\<close>: greedy, so one more whitespace code unit is
  taken first, and given back when the rest of the pattern fails from there.
\<close>

fun greedy_space_then :: "(jsstring \<Rightarrow> 'a option) \<Rightarrow> jsstring \<Rightarrow> 'a option" where
  "greedy_space_then k [] = k []"
| "greedy_space_then k (c # cs) =
     (if is_space c
      then (case greedy_space_then k cs of Some r \<Rightarrow> Some r | None \<Rightarrow> k (c # cs))
      else k (c # cs))"

text \<open>\<open>/```json\s*([\s\S]*?)```/i\<close> and \<open>/```([\s\S]*?)```/i\<close> tried at the head of the text.\<close>

definition json_fence_at :: "jsstring \<Rightarrow> jsstring option" where
  "json_fence_at t =
     (case match_ci (fence @ tag_json) t of
        None \<Rightarrow> None
      | Some rest \<Rightarrow> greedy_space_then lazy_until_fence rest)"

definition any_fence_at :: "jsstring \<Rightarrow> jsstring option" where
  "any_fence_at t =
     (case match_ci fence t of
        None \<Rightarrow> None
      | Some rest \<Rightarrow> lazy_until_fence rest)"

text \<open>
  \<open>text.match(re)\<close> for a pattern without the \<open>g\<close> flag: the match at the leftmost start
  position where the pattern matches, \<open>None\<close> for \<open>null\<close>. The value is capture group 1.
\<close>

fun js_match :: "(jsstring \<Rightarrow> 'a option) \<Rightarrow> jsstring \<Rightarrow> 'a option" where
  "js_match m [] = m []"
| "js_match m (c # cs) =
     (case m (c # cs) of Some r \<Rightarrow> Some r | None \<Rightarrow> js_match m cs)"

definition jsonMatch :: "jsstring \<Rightarrow> jsstring option" where
  "jsonMatch geminiText =
     (case js_match json_fence_at geminiText of
        Some g \<Rightarrow> Some g
      | None \<Rightarrow> js_match any_fence_at geminiText)"

text \<open>\<open>index.js\<close>, lines 88 to 96: both branches trim.\<close>

definition sanitize_index :: "jsstring \<Rightarrow> jsstring" where
  "sanitize_index geminiText =
     (case jsonMatch geminiText of
        Some g \<Rightarrow> trim g
      | None \<Rightarrow> trim geminiText)"

text \<open>\<open>new.js\<close>, lines 82 to 88 and 241 to 247: there is no \<open>else\<close> branch.\<close>

definition sanitize_new :: "jsstring \<Rightarrow> jsstring" where
  "sanitize_new geminiText =
     (case jsonMatch geminiText of
        Some g \<Rightarrow> trim g
      | None \<Rightarrow> geminiText)"

text \<open>
  The opening tag of a text wrapped in a \<open>```json\<close> fence, in any letter case, and the
  fence's inner content: what lies between the tag and the first closing fence after it.
\<close>

definition is_json_tag :: "jsstring \<Rightarrow> bool" where
  "is_json_tag tg \<longleftrightarrow> length tg = 4 \<and> list_all2 eq_ci tag_json tg"

definition closes_first :: "jsstring \<Rightarrow> bool" where
  "closes_first inner \<longleftrightarrow>
     (\<forall>i<length inner. take 3 (drop i (inner @ fence)) \<noteq> fence)"

section \<open>The relational store\<close>

text \<open>
  The tables the source reads and writes, with the columns it names. Every table with a
  generated key has an identity counter: an insert takes the counter's value as the new
  key and advances it. \<open>QuestionBatch.created_at\<close> is assigned by the store and read
  by no operation modelled here; it is left out.
\<close>

record grammar_point_row =
  gp_GrammarId :: int
  gp_Concept :: val
  gp_Meaning :: val
  gp_Details :: val

record example_row =
  ex_ExampleId :: int
  ex_GrammarId :: int
  ex_Japanese :: val
  ex_Romaji :: val
  ex_English :: val

record vocabulary_row =
  vo_VocabId :: int
  vo_ExampleId :: int
  vo_Word :: val
  vo_Romaji :: val
  vo_Meaning :: val

record kanji_row =
  k_Id :: int
  k_Kanji :: val

text \<open>
  The text \<open>JSON.stringify\<close> makes of an array of strings, kept as the array it encodes:
  \<open>JSON.parse\<close> of that text gives the array back.
\<close>

datatype json_text = JSON_stringify (JSON_parse: "val list")

record question_batch_row =
  qb_batch_id :: int
  qb_grammar_list :: json_text
  qb_kanji_list :: json_text

record question_row =
  q_question_id :: int
  q_question_type :: val
  q_question_text :: val
  q_answer :: val
  q_explanation :: val
  q_batch_id :: int

record question_option_row =
  qo_option_id :: int
  qo_question_id :: int
  qo_option_text :: val
  qo_is_correct :: bool

record store =
  GrammarPoints :: "grammar_point_row list"
  Examples :: "example_row list"
  Vocabulary :: "vocabulary_row list"
  KanjiInfo :: "kanji_row list"
  QuestionBatch :: "question_batch_row list"
  questions :: "question_row list"
  question_options :: "question_option_row list"
  next_GrammarId :: int
  next_ExampleId :: int
  next_VocabId :: int
  next_batch_id :: int
  next_question_id :: int
  next_option_id :: int

text \<open>The \<open>INSERT\<close> statements of the source; those with an \<open>OUTPUT\<close> clause return the key.\<close>

definition INSERT_GrammarPoints :: "val \<Rightarrow> val \<Rightarrow> val \<Rightarrow> store \<Rightarrow> int \<times> store" where
  "INSERT_GrammarPoints c m d s =
     (next_GrammarId s,
      s\<lparr>GrammarPoints := GrammarPoints s @
           [\<lparr>gp_GrammarId = next_GrammarId s, gp_Concept = c, gp_Meaning = m, gp_Details = d\<rparr>],
        next_GrammarId := next_GrammarId s + 1\<rparr>)"

definition INSERT_Examples :: "int \<Rightarrow> val \<Rightarrow> val \<Rightarrow> val \<Rightarrow> store \<Rightarrow> int \<times> store" where
  "INSERT_Examples g j r e s =
     (next_ExampleId s,
      s\<lparr>Examples := Examples s @
           [\<lparr>ex_ExampleId = next_ExampleId s, ex_GrammarId = g,
             ex_Japanese = j, ex_Romaji = r, ex_English = e\<rparr>],
        next_ExampleId := next_ExampleId s + 1\<rparr>)"

definition INSERT_Vocabulary :: "int \<Rightarrow> val \<Rightarrow> val \<Rightarrow> val \<Rightarrow> store \<Rightarrow> unit \<times> store" where
  "INSERT_Vocabulary e w r m s =
     ((),
      s\<lparr>Vocabulary := Vocabulary s @
           [\<lparr>vo_VocabId = next_VocabId s, vo_ExampleId = e,
             vo_Word = w, vo_Romaji = r, vo_Meaning = m\<rparr>],
        next_VocabId := next_VocabId s + 1\<rparr>)"

definition INSERT_QuestionBatch :: "json_text \<Rightarrow> json_text \<Rightarrow> store \<Rightarrow> int \<times> store" where
  "INSERT_QuestionBatch gl kl s =
     (next_batch_id s,
      s\<lparr>QuestionBatch := QuestionBatch s @
           [\<lparr>qb_batch_id = next_batch_id s, qb_grammar_list = gl, qb_kanji_list = kl\<rparr>],
        next_batch_id := next_batch_id s + 1\<rparr>)"

definition INSERT_questions ::
  "val \<Rightarrow> val \<Rightarrow> val \<Rightarrow> val \<Rightarrow> int \<Rightarrow> store \<Rightarrow> int \<times> store" where
  "INSERT_questions ty tx an ex b s =
     (next_question_id s,
      s\<lparr>questions := questions s @
           [\<lparr>q_question_id = next_question_id s, q_question_type = ty, q_question_text = tx,
             q_answer = an, q_explanation = ex, q_batch_id = b\<rparr>],
        next_question_id := next_question_id s + 1\<rparr>)"

definition INSERT_question_options :: "int \<Rightarrow> val \<Rightarrow> bool \<Rightarrow> store \<Rightarrow> unit \<times> store" where
  "INSERT_question_options q t c s =
     ((),
      s\<lparr>question_options := question_options s @
           [\<lparr>qo_option_id = next_option_id s, qo_question_id = q,
             qo_option_text = t, qo_is_correct = c\<rparr>],
        next_option_id := next_option_id s + 1\<rparr>)"

subsection \<open>Transactions and failing statements\<close>

text \<open>
  A request's statements are numbered in the order they are issued; \<open>faults\<close> says which
  of them the store rejects, and with which message (\<open>err.message\<close>). A transaction
  works on its own copy of the store: readers see the snapshot until \<open>commit\<close>, and
  \<open>rollback\<close> drops the copy. A rejected statement changes nothing. \<open>sql.connect\<close>,
  \<open>tx.begin\<close>, \<open>tx.commit\<close>, \<open>tx.rollback\<close> and \<open>pool.close\<close> are taken to succeed.
\<close>

datatype error = Error string

type_synonym faults = "nat \<Rightarrow> string option"

record conn =
  snapshot :: store
  working :: store
  issued :: nat

definition tx_begin :: "nat \<Rightarrow> store \<Rightarrow> conn" where
  "tx_begin n s = \<lparr>snapshot = s, working = s, issued = n\<rparr>"

definition tx_commit :: "conn \<Rightarrow> store" where
  "tx_commit c = working c"

definition tx_rollback :: "conn \<Rightarrow> store" where
  "tx_rollback c = snapshot c"

definition run_query :: "faults \<Rightarrow> (store \<Rightarrow> 'a \<times> store) \<Rightarrow> conn \<Rightarrow> (error + 'a) \<times> conn" where
  "run_query F stmt c =
     (case F (issued c) of
        Some msg \<Rightarrow> (Inl (Error msg), c\<lparr>issued := Suc (issued c)\<rparr>)
      | None \<Rightarrow>
          (case stmt (working c) of
             (r, s') \<Rightarrow> (Inr r, c\<lparr>working := s', issued := Suc (issued c)\<rparr>)))"

datatype 'a response = Json 'a | Status404 string | Status500 string

section \<open>The cascading writer for grammar documents\<close>

text \<open>
  The parsed document: \<open>concept\<close>, \<open>meaning\<close>, \<open>details\<close> and \<open>examples\<close>, each example
  with \<open>japanese\<close>, \<open>romaji\<close>, \<open>english\<close> and \<open>vocab\<close>, each vocab entry with \<open>word\<close>,
  \<open>romaji\<close> and \<open>meaning\<close>. The same shapes are what \<open>GET /api/grammar/:id\<close> answers.
\<close>

record vocab_doc =
  vd_word :: val
  vd_romaji :: val
  vd_meaning :: val

record example_doc =
  ed_japanese :: val
  ed_romaji :: val
  ed_english :: val
  ed_vocab :: "vocab_doc list"

record grammar_doc =
  gd_concept :: val
  gd_meaning :: val
  gd_details :: val
  gd_examples :: "example_doc list"

record insert_result =
  ir_grammarId :: int
  ir_geminiData :: grammar_doc

text \<open>\<open>for (const vocab of example.vocab)\<close>: a rejected insert throws out of the loop.\<close>

fun insert_vocab_loop ::
  "faults \<Rightarrow> int \<Rightarrow> vocab_doc list \<Rightarrow> conn \<Rightarrow> (error + unit) \<times> conn" where
  "insert_vocab_loop F exampleId [] c = (Inr (), c)"
| "insert_vocab_loop F exampleId (v # vs) c =
     (case run_query F
             (INSERT_Vocabulary exampleId (vd_word v) (vd_romaji v) (vd_meaning v)) c of
        (Inl err, c') \<Rightarrow> (Inl err, c')
      | (Inr u, c') \<Rightarrow> insert_vocab_loop F exampleId vs c')"

text \<open>\<open>for (const example of geminiData.examples)\<close>.\<close>

fun insert_example_loop ::
  "faults \<Rightarrow> int \<Rightarrow> example_doc list \<Rightarrow> conn \<Rightarrow> (error + unit) \<times> conn" where
  "insert_example_loop F grammarId [] c = (Inr (), c)"
| "insert_example_loop F grammarId (e # es) c =
     (case run_query F
             (INSERT_Examples grammarId (ed_japanese e) (ed_romaji e) (ed_english e)) c of
        (Inl err, c') \<Rightarrow> (Inl err, c')
      | (Inr exampleId, c') \<Rightarrow>
          (case insert_vocab_loop F exampleId (ed_vocab e) c' of
             (Inl err, c'') \<Rightarrow> (Inl err, c'')
           | (Inr u, c'') \<Rightarrow> insert_example_loop F grammarId es c''))"

text \<open>The statements between \<open>tx.begin()\<close> and \<open>tx.commit()\<close>.\<close>

definition insert_grammar ::
  "faults \<Rightarrow> grammar_doc \<Rightarrow> conn \<Rightarrow> (error + int) \<times> conn" where
  "insert_grammar F geminiData c =
     (case run_query F
             (INSERT_GrammarPoints (gd_concept geminiData) (gd_meaning geminiData)
                (gd_details geminiData)) c of
        (Inl err, c') \<Rightarrow> (Inl err, c')
      | (Inr grammarId, c') \<Rightarrow>
          (case insert_example_loop F grammarId (gd_examples geminiData) c' of
             (Inl err, c'') \<Rightarrow> (Inl err, c'')
           | (Inr u, c'') \<Rightarrow> (Inr grammarId, c'')))"

text \<open>
  \<open>POST /api/gemini\<close> from \<open>sql.connect\<close> on (\<open>index.js\<close> lines 106 to 164; \<open>new.js\<close> lines
  92 to 149 are the same): the answer and the store the readers see afterwards. The
  constant \<open>message\<close> field of the answer is left out.
\<close>

definition cascading_insert ::
  "faults \<Rightarrow> grammar_doc \<Rightarrow> store \<Rightarrow> insert_result response \<times> store" where
  "cascading_insert F geminiData s =
     (case insert_grammar F geminiData (tx_begin 0 s) of
        (Inr grammarId, c) \<Rightarrow>
          (Json \<lparr>ir_grammarId = grammarId, ir_geminiData = geminiData\<rparr>, tx_commit c)
      | (Inl (Error msg), c) \<Rightarrow> (Status500 msg, tx_rollback c))"

text \<open>The number of \<open>INSERT\<close> statements a document needs.\<close>

definition statements_of :: "grammar_doc \<Rightarrow> nat" where
  "statements_of d = 1 + sum_list (map (\<lambda>e. 1 + length (ed_vocab e)) (gd_examples d))"

section \<open>The grammar read path\<close>

subsection \<open>The joined rows\<close>

text \<open>
  A row of \<open>GrammarPoints g LEFT JOIN Examples e LEFT JOIN Vocabulary v\<close>, with the column
  names of the \<open>SELECT\<close> list. The example and vocabulary columns are \<open>NULL\<close> where the
  left join found no partner.
\<close>

record row =
  GrammarId :: int
  Concept :: val
  Meaning :: val
  Details :: val
  ExampleId :: "int option"
  Japanese :: val
  Romaji :: val
  English :: val
  VocabId :: "int option"
  Word :: val
  VocabRomaji :: val
  VocabMeaning :: val

definition join_row ::
  "grammar_point_row \<Rightarrow> example_row option \<Rightarrow> vocabulary_row option \<Rightarrow> row" where
  "join_row g e v =
     \<lparr>GrammarId = gp_GrammarId g, Concept = gp_Concept g, Meaning = gp_Meaning g,
      Details = gp_Details g,
      ExampleId = map_option ex_ExampleId e,
      Japanese = Option.bind e ex_Japanese,
      Romaji = Option.bind e ex_Romaji,
      English = Option.bind e ex_English,
      VocabId = map_option vo_VocabId v,
      Word = Option.bind v vo_Word,
      VocabRomaji = Option.bind v vo_Romaji,
      VocabMeaning = Option.bind v vo_Meaning\<rparr>"

text \<open>\<open>LEFT JOIN Vocabulary v ON e.ExampleId = v.ExampleId\<close>, for one example.\<close>

definition join_vocabulary :: "store \<Rightarrow> grammar_point_row \<Rightarrow> example_row \<Rightarrow> row list" where
  "join_vocabulary s g e =
     (case filter (\<lambda>v. vo_ExampleId v = ex_ExampleId e) (Vocabulary s) of
        [] \<Rightarrow> [join_row g (Some e) None]
      | v # vs \<Rightarrow> map (\<lambda>v. join_row g (Some e) (Some v)) (v # vs))"

text \<open>\<open>LEFT JOIN Examples e ON g.GrammarId = e.GrammarId\<close>, for one grammar point.\<close>

definition join_examples :: "store \<Rightarrow> grammar_point_row \<Rightarrow> row list" where
  "join_examples s g =
     (case filter (\<lambda>e. ex_GrammarId e = gp_GrammarId g) (Examples s) of
        [] \<Rightarrow> [join_row g None None]
      | e # es \<Rightarrow> concat (map (join_vocabulary s g) (e # es)))"

text \<open>
  The two queries. \<open>ORDER BY\<close> sorts ascending with \<open>NULL\<close> first, which is the order of
  \<open>option\<close> with \<open>None\<close> least; rows with equal keys stay in the order of the join.
\<close>

definition grammar_by_id_query :: "int \<Rightarrow> store \<Rightarrow> row list" where
  "grammar_by_id_query gid s =
     sort_key (\<lambda>r. (ExampleId r, VocabId r))
       (concat (map (join_examples s) (filter (\<lambda>g. gp_GrammarId g = gid) (GrammarPoints s))))"

definition all_grammar_query :: "store \<Rightarrow> row list" where
  "all_grammar_query s =
     sort_key (\<lambda>r. (GrammarId r, ExampleId r, VocabId r))
       (concat (map (join_examples s) (GrammarPoints s)))"

subsection \<open>Rows to one tree: \<open>GET /api/grammar/:id\<close>\<close>

text \<open>\<open>if (row.ExampleId)\<close>: \<open>null\<close> and the number \<open>0\<close> are falsy.\<close>

definition truthy :: "int option \<Rightarrow> bool" where
  "truthy x = (case x of None \<Rightarrow> False | Some n \<Rightarrow> n \<noteq> 0)"

definition vocab_of_row :: "row \<Rightarrow> vocab_doc" where
  "vocab_of_row r = \<lparr>vd_word = Word r, vd_romaji = VocabRomaji r, vd_meaning = VocabMeaning r\<rparr>"

definition example_of_row :: "row \<Rightarrow> example_doc" where
  "example_of_row r =
     \<lparr>ed_japanese = Japanese r, ed_romaji = Romaji r, ed_english = English r, ed_vocab = []\<rparr>"

text \<open>
  \<open>exampleMap\<close> and \<open>grammar.examples\<close> hold the same objects: the list below has one
  entry per object in the order of the \<open>push\<close>es, under the key \<open>exampleMap\<close> gives it.
  An object stored in the map is always truthy, so \<open>!exampleMap[k]\<close> tests the key.
\<close>

type_synonym example_map = "(int \<times> example_doc) list"

definition push_vocab :: "row \<Rightarrow> int \<Rightarrow> example_map \<Rightarrow> example_map" where
  "push_vocab r k m =
     map (\<lambda>(k', e). if k' = k then (k', e\<lparr>ed_vocab := ed_vocab e @ [vocab_of_row r]\<rparr>)
                    else (k', e)) m"

definition example_step :: "example_map \<Rightarrow> row \<Rightarrow> example_map" where
  "example_step m r =
     (case ExampleId r of
        None \<Rightarrow> m
      | Some k \<Rightarrow>
          if k = 0 then m
          else
            let m1 = (if map_of m k = None then m @ [(k, example_of_row r)] else m)
            in if truthy (VocabId r) then push_vocab r k m1 else m1)"

text \<open>The transform, given \<open>rows[0]\<close> and all the rows.\<close>

definition transform_rows :: "row \<Rightarrow> row list \<Rightarrow> grammar_doc" where
  "transform_rows row0 rows =
     \<lparr>gd_concept = Concept row0, gd_meaning = Meaning row0, gd_details = Details row0,
      gd_examples = map snd (foldl example_step [] rows)\<rparr>"

text \<open>The handler, for a query that returns: 404 on an empty record set.\<close>

definition grammar_response :: "row list \<Rightarrow> grammar_doc response" where
  "grammar_response recordset =
     (case recordset of
        [] \<Rightarrow> Status404 ''Grammar point not found''
      | r # rs \<Rightarrow> Json (transform_rows r (r # rs)))"

definition get_grammar :: "int \<Rightarrow> store \<Rightarrow> grammar_doc response" where
  "get_grammar gid s = grammar_response (grammar_by_id_query gid s)"

subsection \<open>Rows to all trees: \<open>GET /api/grammar\<close>\<close>

record example_node =
  en_id :: int
  en_japanese :: val
  en_romaji :: val
  en_english :: val
  en_vocab :: "vocab_doc list"

record grammar_node =
  gn_id :: int
  gn_concept :: val
  gn_meaning :: val
  gn_details :: val
  gn_examples :: "example_node list"

text \<open>
  A plain object whose keys come from numbers, as the list of its own properties in the
  order they were created. \<open>Object.values\<close> does not follow that order: the keys that
  are array indices (the integers from 0 to \<open>2^32 - 2\<close>) come first, ascending, and the
  other keys after them in creation order.
\<close>

type_synonym 'a js_object = "(int \<times> 'a) list"

definition is_array_index :: "int \<Rightarrow> bool" where
  "is_array_index k \<longleftrightarrow> 0 \<le> k \<and> k < 4294967295"

definition Object_values :: "'a js_object \<Rightarrow> 'a list" where
  "Object_values obj =
     map snd (sort_key fst (filter (\<lambda>p. is_array_index (fst p)) obj))
     @ map snd (filter (\<lambda>p. \<not> is_array_index (fst p)) obj)"

definition update_key :: "int \<Rightarrow> ('a \<Rightarrow> 'a) \<Rightarrow> 'a js_object \<Rightarrow> 'a js_object" where
  "update_key k f obj = map (\<lambda>(k', x). if k' = k then (k', f x) else (k', x)) obj"

text \<open>\<open>example.vocab.push\<close> on the object \<open>find\<close> returned: the first with that id.\<close>

fun push_vocab_node :: "row \<Rightarrow> int \<Rightarrow> example_node list \<Rightarrow> example_node list" where
  "push_vocab_node r k [] = []"
| "push_vocab_node r k (e # es) =
     (if en_id e = k then e\<lparr>en_vocab := en_vocab e @ [vocab_of_row r]\<rparr> # es
      else e # push_vocab_node r k es)"

definition example_node_of_row :: "int \<Rightarrow> row \<Rightarrow> example_node" where
  "example_node_of_row k r =
     \<lparr>en_id = k, en_japanese = Japanese r, en_romaji = Romaji r, en_english = English r,
      en_vocab = []\<rparr>"

definition grammar_node_of_row :: "row \<Rightarrow> grammar_node" where
  "grammar_node_of_row r =
     \<lparr>gn_id = GrammarId r, gn_concept = Concept r, gn_meaning = Meaning r,
      gn_details = Details r, gn_examples = []\<rparr>"

text \<open>The body of \<open>if (row.ExampleId)\<close>, on the examples of the row's grammar node.\<close>

definition examples_step :: "row \<Rightarrow> example_node list \<Rightarrow> example_node list" where
  "examples_step r exs =
     (case ExampleId r of
        None \<Rightarrow> exs
      | Some k \<Rightarrow>
          if k = 0 then exs
          else
            let exs1 = (if find (\<lambda>ex. en_id ex = k) exs = None
                        then exs @ [example_node_of_row k r] else exs)
            in if truthy (VocabId r) then push_vocab_node r k exs1 else exs1)"

definition grammar_step :: "grammar_node js_object \<Rightarrow> row \<Rightarrow> grammar_node js_object" where
  "grammar_step grammarMap r =
     (let m1 = (if map_of grammarMap (GrammarId r) = None
                then grammarMap @ [(GrammarId r, grammar_node_of_row r)] else grammarMap)
      in update_key (GrammarId r) (\<lambda>g. g\<lparr>gn_examples := examples_step r (gn_examples g)\<rparr>) m1)"

definition transform_all :: "row list \<Rightarrow> grammar_node list" where
  "transform_all rows = Object_values (foldl grammar_step [] rows)"

definition all_grammar_response :: "row list \<Rightarrow> grammar_node list response" where
  "all_grammar_response recordset =
     (case recordset of
        [] \<Rightarrow> Json []
      | r # rs \<Rightarrow> Json (transform_all (r # rs)))"

definition get_all_grammar :: "store \<Rightarrow> grammar_node list response" where
  "get_all_grammar s = all_grammar_response (all_grammar_query s)"


text \<open>The root identifiers of a row stream in the order they are first seen.\<close>

fun first_seen :: "'a list \<Rightarrow> 'a list" where
  "first_seen [] = []"
| "first_seen (x # xs) = x # filter (\<lambda>y. y \<noteq> x) (first_seen xs)"

section \<open>The question-set write path: \<open>POST /api/gemini/questions\<close>\<close>

record question_doc =
  qd_question_type :: val
  qd_question :: val
  qd_options :: "val list"
  qd_answer :: val
  qd_explanation :: val

record questions_result =
  qr_batch_id :: int
  qr_grammar_used :: "val list"
  qr_kanji_used :: "val list"
  qr_count :: nat

text \<open>
  \<open>ORDER BY NEWID()\<close>: the store draws a fresh identifier for every row and sorts by it.
  The draw is the function \<open>newid\<close>, from the position of a row in its table.
\<close>

definition ORDER_BY_NEWID :: "(nat \<Rightarrow> nat) \<Rightarrow> 'a list \<Rightarrow> 'a list" where
  "ORDER_BY_NEWID newid xs = map snd (sort_key fst (zip (map newid [0..<length xs]) xs))"

text \<open>\<open>for (const opt of q.options)\<close>, with \<open>is_correct = (opt === q.answer)\<close>.\<close>

fun insert_option_loop ::
  "faults \<Rightarrow> int \<Rightarrow> val \<Rightarrow> val list \<Rightarrow> conn \<Rightarrow> (error + unit) \<times> conn" where
  "insert_option_loop F questionId answer [] c = (Inr (), c)"
| "insert_option_loop F questionId answer (opt # opts) c =
     (case run_query F (INSERT_question_options questionId opt (opt = answer)) c of
        (Inl err, c') \<Rightarrow> (Inl err, c')
      | (Inr u, c') \<Rightarrow> insert_option_loop F questionId answer opts c')"

text \<open>\<open>for (const q of questions)\<close>.\<close>

fun insert_question_loop ::
  "faults \<Rightarrow> int \<Rightarrow> question_doc list \<Rightarrow> conn \<Rightarrow> (error + unit) \<times> conn" where
  "insert_question_loop F batchId [] c = (Inr (), c)"
| "insert_question_loop F batchId (q # qs) c =
     (case run_query F
             (INSERT_questions (qd_question_type q) (qd_question q) (qd_answer q)
                (qd_explanation q) batchId) c of
        (Inl err, c') \<Rightarrow> (Inl err, c')
      | (Inr questionId, c') \<Rightarrow>
          (case insert_option_loop F questionId (qd_answer q) (qd_options q) c' of
             (Inl err, c'') \<Rightarrow> (Inl err, c'')
           | (Inr u, c'') \<Rightarrow> insert_question_loop F batchId qs c''))"

text \<open>
  From \<open>tx.begin()\<close> to \<open>tx.commit()\<close>. The call of the generator, the fence stripping and
  \<open>JSON.parse\<close> happen inside the transaction; \<open>gemini\<close> is their outcome for the two
  sampled lists, either the error thrown or the parsed sequence of question objects.
\<close>

definition insert_batch ::
  "faults \<Rightarrow> (val list \<Rightarrow> val list \<Rightarrow> error + question_doc list) \<Rightarrow>
   val list \<Rightarrow> val list \<Rightarrow> conn \<Rightarrow> (error + questions_result) \<times> conn" where
  "insert_batch F gemini grammarList kanjiList c =
     (case run_query F
             (INSERT_QuestionBatch (JSON_stringify grammarList) (JSON_stringify kanjiList)) c of
        (Inl err, c') \<Rightarrow> (Inl err, c')
      | (Inr batchId, c') \<Rightarrow>
          (case gemini grammarList kanjiList of
             Inl err \<Rightarrow> (Inl err, c')
           | Inr qs \<Rightarrow>
               (case insert_question_loop F batchId qs c' of
                  (Inl err, c'') \<Rightarrow> (Inl err, c'')
                | (Inr u, c'') \<Rightarrow>
                    (Inr \<lparr>qr_batch_id = batchId, qr_grammar_used = grammarList,
                          qr_kanji_used = kanjiList, qr_count = length qs\<rparr>, c''))))"

text \<open>
  \<open>SELECT TOP 5 GrammarId, Concept FROM GrammarPoints ORDER BY NEWID()\<close> mapped to the
  concepts, and \<open>SELECT TOP 10 Id, Kanji FROM KanjiInfo ORDER BY NEWID()\<close> to the kanji.
\<close>

definition grammar_sample :: "(nat \<Rightarrow> nat) \<Rightarrow> store \<Rightarrow> val list" where
  "grammar_sample newid s = map gp_Concept (take 5 (ORDER_BY_NEWID newid (GrammarPoints s)))"

definition kanji_sample :: "(nat \<Rightarrow> nat) \<Rightarrow> store \<Rightarrow> val list" where
  "kanji_sample newid s = map k_Kanji (take 10 (ORDER_BY_NEWID newid (KanjiInfo s)))"

text \<open>
  The handler. Statements 0 and 1 are the two sampling queries, issued on the pool before
  the transaction exists: when one of them is rejected, \<open>tx\<close> is still undefined and
  nothing is rolled back.
\<close>

definition post_questions ::
  "faults \<Rightarrow> (nat \<Rightarrow> nat) \<Rightarrow> (nat \<Rightarrow> nat) \<Rightarrow>
   (val list \<Rightarrow> val list \<Rightarrow> error + question_doc list) \<Rightarrow>
   store \<Rightarrow> questions_result response \<times> store" where
  "post_questions F newid1 newid2 gemini s =
     (case F 0 of
        Some msg \<Rightarrow> (Status500 msg, s)
      | None \<Rightarrow>
          (case F 1 of
             Some msg \<Rightarrow> (Status500 msg, s)
           | None \<Rightarrow>
               (let grammarList = grammar_sample newid1 s;
                    kanjiList = kanji_sample newid2 s
                in case insert_batch F gemini grammarList kanjiList (tx_begin 2 s) of
                     (Inr res, c) \<Rightarrow> (Json res, tx_commit c)
                   | (Inl (Error msg), c) \<Rightarrow> (Status500 msg, tx_rollback c))))"

section \<open>The exam read path: \<open>GET /api/exam/today\<close>, steps 2 and 3\<close>

record exam_row =
  question_id :: int
  question_type :: val
  question_text :: val
  answer :: val
  explanation :: val
  option_id :: int
  option_text :: val
  is_correct :: bool

definition exam_join_row :: "question_row \<Rightarrow> question_option_row \<Rightarrow> exam_row" where
  "exam_join_row q qo =
     \<lparr>question_id = q_question_id q, question_type = q_question_type q,
      question_text = q_question_text q, answer = q_answer q, explanation = q_explanation q,
      option_id = qo_option_id qo, option_text = qo_option_text qo,
      is_correct = qo_is_correct qo\<rparr>"

text \<open>
  \<open>FROM questions q JOIN question_options qo ON q.question_id = qo.question_id
  WHERE q.batch_id = @batch_id ORDER BY q.question_id, qo.option_id\<close>.
\<close>

definition exam_query :: "int \<Rightarrow> store \<Rightarrow> exam_row list" where
  "exam_query batch_id s =
     sort_key (\<lambda>r. (question_id r, option_id r))
       (concat (map (\<lambda>q. map (exam_join_row q)
                            (filter (\<lambda>qo. qo_question_id qo = q_question_id q)
                               (question_options s)))
                  (filter (\<lambda>q. q_batch_id q = batch_id) (questions s))))"

record exam_option =
  eo_option_id :: int
  eo_option_text :: val
  eo_is_correct :: bool

record exam_question =
  eq_question_id :: int
  eq_question_type :: val
  eq_question_text :: val
  eq_answer :: val
  eq_explanation :: val
  eq_options :: "exam_option list"

definition exam_question_of_row :: "exam_row \<Rightarrow> exam_question" where
  "exam_question_of_row r =
     \<lparr>eq_question_id = question_id r, eq_question_type = question_type r,
      eq_question_text = question_text r, eq_answer = answer r,
      eq_explanation = explanation r, eq_options = []\<rparr>"

definition exam_option_of_row :: "exam_row \<Rightarrow> exam_option" where
  "exam_option_of_row r =
     \<lparr>eo_option_id = option_id r, eo_option_text = option_text r,
      eo_is_correct = is_correct r\<rparr>"

definition questions_step :: "exam_question js_object \<Rightarrow> exam_row \<Rightarrow> exam_question js_object" where
  "questions_step questionsMap r =
     (let m1 = (if map_of questionsMap (question_id r) = None
                then questionsMap @ [(question_id r, exam_question_of_row r)]
                else questionsMap)
      in update_key (question_id r)
           (\<lambda>q. q\<lparr>eq_options := eq_options q @ [exam_option_of_row r]\<rparr>) m1)"

definition exam_questions :: "int \<Rightarrow> store \<Rightarrow> exam_question list" where
  "exam_questions batch_id s =
     Object_values (foldl questions_step [] (exam_query batch_id s))"

text \<open>Every value of the object carries its own key as identifier.\<close>

definition keyed :: "('a \<Rightarrow> int) \<Rightarrow> 'a js_object \<Rightarrow> bool" where
  "keyed ident m \<longleftrightarrow> (\<forall>p\<in>set m. ident (snd p) = fst p)"

text \<open>Every question of the object has at least one option.\<close>

definition has_options :: "exam_question js_object \<Rightarrow> bool" where
  "has_options m \<longleftrightarrow> (\<forall>p\<in>set m. eq_options (snd p) \<noteq> [])"

text \<open>The store before the first insert, with identity counters that start at 1.\<close>

definition empty_store :: store where
  "empty_store =
     \<lparr>GrammarPoints = [], Examples = [], Vocabulary = [], KanjiInfo = [],
      QuestionBatch = [], questions = [], question_options = [],
      next_GrammarId = 1, next_ExampleId = 1, next_VocabId = 1,
      next_batch_id = 1, next_question_id = 1, next_option_id = 1\<rparr>"

text \<open>A stored question of batch 1 without text, and a store with two of them and one option.\<close>

definition blank_question :: "int \<Rightarrow> question_row" where
  "blank_question i =
     \<lparr>q_question_id = i, q_question_type = None, q_question_text = None,
      q_answer = None, q_explanation = None, q_batch_id = 1\<rparr>"

definition exam_store :: store where
  "exam_store =
     empty_store
       \<lparr>questions := [blank_question 1, blank_question 2],
        question_options :=
          [\<lparr>qo_option_id = 1, qo_question_id = 1, qo_option_text = None,
            qo_is_correct = True\<rparr>]\<rparr>"

subsection \<open>Counting statements\<close>

text \<open>
  What a run of \<open>n\<close> statements starting at number \<open>i\<close> may return: success only when none
  of them is rejected, and otherwise the message of the first rejected one.
\<close>

definition outcome :: "faults \<Rightarrow> nat \<Rightarrow> nat \<Rightarrow> (error + 'a) \<times> conn \<Rightarrow> bool" where
  "outcome F i n res \<longleftrightarrow>
     (case res of
        (Inr u, c') \<Rightarrow> issued c' = i + n \<and> (\<forall>j<n. F (i + j) = None)
      | (Inl (Error msg), c') \<Rightarrow>
          (\<exists>k<n. F (i + k) = Some msg \<and> (\<forall>j<k. F (i + j) = None)))"

definition question_statements :: "question_doc list \<Rightarrow> nat" where
  "question_statements qs = sum_list (map (\<lambda>q. 1 + length (qd_options q)) qs)"

definition no_faults :: faults where
  "no_faults = (\<lambda>k. None)"

subsection \<open>Sample inputs\<close>

text \<open>A grammar document with one example that carries two vocab entries.\<close>

definition sample_vocab :: "string \<Rightarrow> vocab_doc" where
  "sample_vocab w =
     \<lparr>vd_word = Some (utf16 w), vd_romaji = Some (utf16 w), vd_meaning = Some (utf16 ''m'')\<rparr>"

definition sample_doc :: grammar_doc where
  "sample_doc =
     \<lparr>gd_concept = Some (utf16 ''tte''), gd_meaning = Some (utf16 ''quotation''),
      gd_details = Some (utf16 ''casual''),
      gd_examples =
        [\<lparr>ed_japanese = Some (utf16 ''j''), ed_romaji = Some (utf16 ''r''),
          ed_english = Some (utf16 ''e''),
          ed_vocab = [sample_vocab ''v'', sample_vocab ''w'']\<rparr>]\<rparr>"

text \<open>A question object with the given options and answer.\<close>

definition sample_question :: "string list \<Rightarrow> string \<Rightarrow> question_doc" where
  "sample_question opts a =
     \<lparr>qd_question_type = Some (utf16 ''Vocabulary''), qd_question = Some (utf16 ''q''),
      qd_options = map (\<lambda>t. Some (utf16 t)) opts, qd_answer = Some (utf16 a),
      qd_explanation = Some (utf16 ''x'')\<rparr>"

text \<open>The store rejects statement number \<open>n\<close> with a timeout and accepts the others.\<close>

definition timeout_at :: "nat \<Rightarrow> faults" where
  "timeout_at n = (\<lambda>k. if k = n then Some ''timeout'' else None)"

subsection \<open>The rows a successful write adds\<close>

text \<open>
  The rows the question loops add when no statement is rejected, from the values of the
  identity counters when the loop starts.
\<close>

fun option_rows :: "int \<Rightarrow> int \<Rightarrow> val \<Rightarrow> val list \<Rightarrow> question_option_row list" where
  "option_rows q n a [] = []"
| "option_rows q n a (opt # opts) =
     \<lparr>qo_option_id = n, qo_question_id = q, qo_option_text = opt, qo_is_correct = (opt = a)\<rparr>
     # option_rows q (n + 1) a opts"

definition question_row_of :: "int \<Rightarrow> int \<Rightarrow> question_doc \<Rightarrow> question_row" where
  "question_row_of b i q =
     \<lparr>q_question_id = i, q_question_type = qd_question_type q, q_question_text = qd_question q,
      q_answer = qd_answer q, q_explanation = qd_explanation q, q_batch_id = b\<rparr>"

fun new_questions :: "int \<Rightarrow> int \<Rightarrow> question_doc list \<Rightarrow> question_row list" where
  "new_questions b i [] = []"
| "new_questions b i (q # qs) = question_row_of b i q # new_questions b (i + 1) qs"

fun new_options :: "int \<Rightarrow> int \<Rightarrow> question_doc list \<Rightarrow> question_option_row list" where
  "new_options i n [] = []"
| "new_options i n (q # qs) =
     option_rows i n (qd_answer q) (qd_options q)
     @ new_options (i + 1) (n + int (length (qd_options q))) qs"

text \<open>The rows the grammar loops add when no statement is rejected.\<close>

fun vocabulary_rows :: "int \<Rightarrow> int \<Rightarrow> vocab_doc list \<Rightarrow> vocabulary_row list" where
  "vocabulary_rows x n [] = []"
| "vocabulary_rows x n (v # vs) =
     \<lparr>vo_VocabId = n, vo_ExampleId = x, vo_Word = vd_word v, vo_Romaji = vd_romaji v,
      vo_Meaning = vd_meaning v\<rparr>
     # vocabulary_rows x (n + 1) vs"

definition example_row_of :: "int \<Rightarrow> int \<Rightarrow> example_doc \<Rightarrow> example_row" where
  "example_row_of g i e =
     \<lparr>ex_ExampleId = i, ex_GrammarId = g, ex_Japanese = ed_japanese e,
      ex_Romaji = ed_romaji e, ex_English = ed_english e\<rparr>"

fun new_examples :: "int \<Rightarrow> int \<Rightarrow> example_doc list \<Rightarrow> example_row list" where
  "new_examples g i [] = []"
| "new_examples g i (e # es) = example_row_of g i e # new_examples g (i + 1) es"

fun new_vocabulary :: "int \<Rightarrow> int \<Rightarrow> example_doc list \<Rightarrow> vocabulary_row list" where
  "new_vocabulary i n [] = []"
| "new_vocabulary i n (e # es) =
     vocabulary_rows i n (ed_vocab e)
     @ new_vocabulary (i + 1) (n + int (length (ed_vocab e))) es"

definition grammar_row_of :: "int \<Rightarrow> grammar_doc \<Rightarrow> grammar_point_row" where
  "grammar_row_of g d =
     \<lparr>gp_GrammarId = g, gp_Concept = gd_concept d, gp_Meaning = gd_meaning d,
      gp_Details = gd_details d\<rparr>"

text \<open>The store after a grammar document has been written with nothing rejected.\<close>

definition written :: "grammar_doc \<Rightarrow> store \<Rightarrow> store" where
  "written d s =
     s\<lparr>GrammarPoints := GrammarPoints s @ [grammar_row_of (next_GrammarId s) d],
       next_GrammarId := next_GrammarId s + 1,
       Examples := Examples s @ new_examples (next_GrammarId s) (next_ExampleId s) (gd_examples d),
       Vocabulary := Vocabulary s
          @ new_vocabulary (next_ExampleId s) (next_VocabId s) (gd_examples d),
       next_ExampleId := next_ExampleId s + int (length (gd_examples d)),
       next_VocabId := next_VocabId s
          + int (sum_list (map (\<lambda>e. length (ed_vocab e)) (gd_examples d)))\<rparr>"

subsection \<open>The document shapes of the specification\<close>



definition valid_vocab :: "vocab_doc \<Rightarrow> bool" where
  "valid_vocab v \<longleftrightarrow> vd_word v \<noteq> None \<and> vd_romaji v \<noteq> None \<and> vd_meaning v \<noteq> None"

definition valid_example :: "example_doc \<Rightarrow> bool" where
  "valid_example e \<longleftrightarrow>
     ed_japanese e \<noteq> None \<and> ed_romaji e \<noteq> None \<and> ed_english e \<noteq> None
     \<and> list_all valid_vocab (ed_vocab e)"

definition valid_GrammarDocument :: "grammar_doc \<Rightarrow> bool" where
  "valid_GrammarDocument d \<longleftrightarrow>
     gd_concept d \<noteq> None \<and> gd_meaning d \<noteq> None \<and> gd_details d \<noteq> None
     \<and> list_all valid_example (gd_examples d)"


subsection \<open>Stores the writers produce\<close>

text \<open>
  The generated keys of a table are distinct, positive and below the table's identity
  counter; a column that refers to another table holds positive values below that
  table's counter. The empty store is such a store and the writers keep it so.
\<close>

definition keys_ok :: "int list \<Rightarrow> int \<Rightarrow> bool" where
  "keys_ok ks n \<longleftrightarrow> distinct ks \<and> (\<forall>k\<in>set ks. 0 < k \<and> k < n)"

definition refs_ok :: "int list \<Rightarrow> int \<Rightarrow> bool" where
  "refs_ok rs n \<longleftrightarrow> (\<forall>r\<in>set rs. 0 < r \<and> r < n)"

definition store_wf :: "store \<Rightarrow> bool" where
  "store_wf s \<longleftrightarrow>
     0 < next_GrammarId s \<and> 0 < next_ExampleId s \<and> 0 < next_VocabId s
     \<and> 0 < next_batch_id s \<and> 0 < next_question_id s \<and> 0 < next_option_id s
     \<and> keys_ok (map gp_GrammarId (GrammarPoints s)) (next_GrammarId s)
     \<and> keys_ok (map ex_ExampleId (Examples s)) (next_ExampleId s)
     \<and> refs_ok (map ex_GrammarId (Examples s)) (next_GrammarId s)
     \<and> keys_ok (map vo_VocabId (Vocabulary s)) (next_VocabId s)
     \<and> refs_ok (map vo_ExampleId (Vocabulary s)) (next_ExampleId s)
     \<and> keys_ok (map qb_batch_id (QuestionBatch s)) (next_batch_id s)
     \<and> keys_ok (map q_question_id (questions s)) (next_question_id s)
     \<and> refs_ok (map q_batch_id (questions s)) (next_batch_id s)
     \<and> keys_ok (map qo_option_id (question_options s)) (next_option_id s)
     \<and> refs_ok (map qo_question_id (question_options s)) (next_question_id s)"





subsection \<open>The joined rows of a written document\<close>

text \<open>The rows the left join makes of one example and of its vocabulary rows.\<close>

definition example_rows :: "grammar_point_row \<Rightarrow> example_row \<Rightarrow> vocabulary_row list \<Rightarrow> row list" where
  "example_rows g e vs =
     (case vs of
        [] \<Rightarrow> [join_row g (Some e) None]
      | v # vs' \<Rightarrow> map (\<lambda>v. join_row g (Some e) (Some v)) (v # vs'))"

text \<open>
  The rows of the examples of a document, written under grammar row \<open>g\<close> when the
  identity counters of examples and vocabulary stood at \<open>i\<close> and \<open>n\<close>.
\<close>

fun doc_rows :: "grammar_point_row \<Rightarrow> int \<Rightarrow> int \<Rightarrow> example_doc list \<Rightarrow> row list" where
  "doc_rows g i n [] = []"
| "doc_rows g i n (e # es) =
     example_rows g (example_row_of (gp_GrammarId g) i e) (vocabulary_rows i n (ed_vocab e))
     @ doc_rows g (i + 1) (n + int (length (ed_vocab e))) es"

subsection \<open>Counting nodes and leaves\<close>

text \<open>
  The number of vocab entries under the example with key \<open>k\<close> of an example map, and the
  number of rows of a record set that carry example \<open>k\<close> together with a vocab identifier.
\<close>

definition leaves_of :: "example_map \<Rightarrow> int \<Rightarrow> nat" where
  "leaves_of m k = (case map_of m k of None \<Rightarrow> 0 | Some e \<Rightarrow> length (ed_vocab e))"

definition leaf_rows :: "int \<Rightarrow> row list \<Rightarrow> nat" where
  "leaf_rows k rows = length (filter (\<lambda>r. ExampleId r = Some k \<and> truthy (VocabId r)) rows)"

text \<open>The example identifiers a record set carries, \<open>NULL\<close> and 0 apart.\<close>

definition example_ids :: "row list \<Rightarrow> int set" where
  "example_ids rows = {k. k \<noteq> 0 \<and> Some k \<in> ExampleId ` set rows}"

text \<open>The node \<open>GET /api/grammar\<close> builds for an entry of the example map.\<close>

definition to_node :: "int \<times> example_doc \<Rightarrow> example_node" where
  "to_node p =
     \<lparr>en_id = fst p, en_japanese = ed_japanese (snd p), en_romaji = ed_romaji (snd p),
      en_english = ed_english (snd p), en_vocab = ed_vocab (snd p)\<rparr>"

text \<open>The rows of the left join of all grammar points, before \<open>ORDER BY\<close>.\<close>

definition joined :: "store \<Rightarrow> row list" where
  "joined s = concat (map (join_examples s) (GrammarPoints s))"

text \<open>
  A store with one grammar point, two examples and two vocabulary rows under the first
  example: the join repeats the grammar point three times and the first example twice.
\<close>

definition fanout_store :: store where
  "fanout_store =
     empty_store
       \<lparr>GrammarPoints :=
          [\<lparr>gp_GrammarId = 1, gp_Concept = Some (utf16 ''c''), gp_Meaning = None,
            gp_Details = None\<rparr>],
        Examples :=
          [\<lparr>ex_ExampleId = 10, ex_GrammarId = 1, ex_Japanese = None, ex_Romaji = None,
            ex_English = None\<rparr>,
           \<lparr>ex_ExampleId = 11, ex_GrammarId = 1, ex_Japanese = None, ex_Romaji = None,
            ex_English = None\<rparr>],
        Vocabulary :=
          [\<lparr>vo_VocabId = 100, vo_ExampleId = 10, vo_Word = None, vo_Romaji = None,
            vo_Meaning = None\<rparr>,
           \<lparr>vo_VocabId = 101, vo_ExampleId = 10, vo_Word = None, vo_Romaji = None,
            vo_Meaning = None\<rparr>],
        next_GrammarId := 2, next_ExampleId := 12, next_VocabId := 102\<rparr>"

section \<open>Identifier 0 in the reconstructor\<close>

lemma example_step_zero:
  "example_step m (r\<lparr>ExampleId := Some 0\<rparr>) = example_step m (r\<lparr>ExampleId := None\<rparr>)"
  by (simp add: example_step_def)

lemma example_step_vocab_zero:
  "example_step m (r\<lparr>VocabId := Some 0\<rparr>) = example_step m (r\<lparr>VocabId := None\<rparr>)"
  by (simp add: example_step_def truthy_def example_of_row_def split: option.splits)

lemma examples_step_zero:
  "examples_step (r\<lparr>ExampleId := Some 0\<rparr>) exs = examples_step (r\<lparr>ExampleId := None\<rparr>) exs"
  by (simp add: examples_step_def)

lemma examples_step_vocab_zero:
  "examples_step (r\<lparr>VocabId := Some 0\<rparr>) exs = examples_step (r\<lparr>VocabId := None\<rparr>) exs"
  by (simp add: examples_step_def truthy_def example_node_of_row_def split: option.splits)

lemma grammar_step_zero:
  "grammar_step m (r\<lparr>ExampleId := Some 0\<rparr>) = grammar_step m (r\<lparr>ExampleId := None\<rparr>)"
  by (simp add: grammar_step_def examples_step_zero grammar_node_of_row_def)

lemma grammar_step_vocab_zero:
  "grammar_step m (r\<lparr>VocabId := Some 0\<rparr>) = grammar_step m (r\<lparr>VocabId := None\<rparr>)"
  by (simp add: grammar_step_def examples_step_vocab_zero grammar_node_of_row_def)

lemma zero_example_no_child:
  "example_step m (r\<lparr>ExampleId := Some 0\<rparr>) = m
   \<and> examples_step (r\<lparr>ExampleId := Some 0\<rparr>) exs = exs"
  by (simp add: example_step_def examples_step_def)

lemma zero_vocab_no_leaf:
  "concat (map (\<lambda>p. ed_vocab (snd p)) (example_step m (r\<lparr>VocabId := Some 0\<rparr>)))
     = concat (map (\<lambda>p. ed_vocab (snd p)) m)
   \<and> concat (map en_vocab (examples_step (r\<lparr>VocabId := Some 0\<rparr>) exs))
     = concat (map en_vocab exs)"
  by (simp add: example_step_def examples_step_def truthy_def example_of_row_def
        example_node_of_row_def split: option.splits)

text \<open>
  Claim C10. The reconstructor tests \<open>row.ExampleId\<close> and \<open>row.VocabId\<close> by truthiness. A row
  whose \<open>ExampleId\<close> is the integer 0, anywhere in the record set, gives the same answer
  as the same row with \<open>ExampleId\<close> \<open>NULL\<close>, in \<open>GET /api/grammar/:id\<close> and in
  \<open>GET /api/grammar\<close>, and so does a row whose \<open>VocabId\<close> is 0. The step of a row with
  \<open>ExampleId\<close> 0 adds no example, and the step of a row with \<open>VocabId\<close> 0 adds no vocab
  entry to any example.
\<close>

theorem zero_id_is_absent:
  "grammar_response (pre @ r\<lparr>ExampleId := Some 0\<rparr> # post)
     = grammar_response (pre @ r\<lparr>ExampleId := None\<rparr> # post)
   \<and> grammar_response (pre @ r\<lparr>VocabId := Some 0\<rparr> # post)
     = grammar_response (pre @ r\<lparr>VocabId := None\<rparr> # post)
   \<and> all_grammar_response (pre @ r\<lparr>ExampleId := Some 0\<rparr> # post)
     = all_grammar_response (pre @ r\<lparr>ExampleId := None\<rparr> # post)
   \<and> all_grammar_response (pre @ r\<lparr>VocabId := Some 0\<rparr> # post)
     = all_grammar_response (pre @ r\<lparr>VocabId := None\<rparr> # post)
   \<and> example_step m (r\<lparr>ExampleId := Some 0\<rparr>) = m
   \<and> examples_step (r\<lparr>ExampleId := Some 0\<rparr>) exs = exs
   \<and> concat (map (\<lambda>p. ed_vocab (snd p)) (example_step m (r\<lparr>VocabId := Some 0\<rparr>)))
       = concat (map (\<lambda>p. ed_vocab (snd p)) m)
   \<and> concat (map en_vocab (examples_step (r\<lparr>VocabId := Some 0\<rparr>) exs))
       = concat (map en_vocab exs)"
  using zero_example_no_child [of m r exs] zero_vocab_no_leaf [of m r exs]
  by (cases pre)
     (simp_all add: grammar_response_def all_grammar_response_def transform_rows_def
        transform_all_def example_step_zero example_step_vocab_zero grammar_step_zero
        grammar_step_vocab_zero)

section \<open>The order of the roots in \<open>GET /api/grammar\<close>\<close>

lemma keys_update_key [simp]: "map fst (update_key k f m) = map fst m"
  by (induction m) (auto simp: update_key_def)

lemma first_seen_set [simp]: "set (first_seen xs) = set xs"
  by (induction xs) auto

lemma first_seen_distinct [simp]: "distinct (first_seen xs)"
  by (induction xs) auto


text \<open>A loop that creates a key when it is new lists the keys in first-seen order.\<close>

lemma keys_foldl_from:
  assumes step: "\<And>m r. map fst (f m r) =
      (if key r \<in> set (map fst m) then map fst m else map fst m @ [key r])"
  shows "map fst (foldl f m rows) =
     map fst m @ filter (\<lambda>k. k \<notin> set (map fst m)) (first_seen (map key rows))"
proof (induction rows arbitrary: m)
  case Nil
  then show ?case by simp
next
  case (Cons r rows)
  show ?case
  proof (cases "key r \<in> set (map fst m)")
    case True
    then have "filter (\<lambda>k. k \<notin> set (map fst m))
                 (filter (\<lambda>y. y \<noteq> key r) (first_seen (map key rows)))
        = filter (\<lambda>k. k \<notin> set (map fst m)) (first_seen (map key rows))"
      by (auto intro!: filter_cong)
    with True show ?thesis
      by (simp add: Cons.IH step del: set_map)
  next
    case False
    have "filter (\<lambda>k. k \<notin> set (map fst m @ [key r])) (first_seen (map key rows))
        = filter (\<lambda>k. k \<notin> set (map fst m))
            (filter (\<lambda>y. y \<noteq> key r) (first_seen (map key rows)))"
      by (auto intro!: filter_cong)
    with False show ?thesis
      by (simp add: Cons.IH step del: set_map)
  qed
qed


lemma keyed_grammar_step: "keyed gn_id m \<Longrightarrow> keyed gn_id (grammar_step m r)"
  by (auto simp: keyed_def grammar_step_def update_key_def grammar_node_of_row_def Let_def)

lemma keyed_foldl_grammar_step: "keyed gn_id m \<Longrightarrow> keyed gn_id (foldl grammar_step m rows)"
  by (induction rows arbitrary: m) (simp_all add: keyed_grammar_step)

lemma keyed_map: "keyed ident m \<Longrightarrow> map ident (map snd m) = map fst m"
  by (induction m) (auto simp: keyed_def)

lemma keyed_Object_values:
  assumes "keyed ident m"
  shows "map ident (Object_values m) =
     sort (filter is_array_index (map fst m)) @ filter (\<lambda>k. \<not> is_array_index k) (map fst m)"
proof -
  have a: "keyed ident (sort_key fst (filter (\<lambda>p. is_array_index (fst p)) m))"
    using assms by (auto simp: keyed_def)
  have b: "keyed ident (filter (\<lambda>p. \<not> is_array_index (fst p)) m)"
    using assms by (auto simp: keyed_def)
  have c: "map fst (sort_key fst xs) = sort (map fst xs)" for xs :: "(int \<times> 'a) list"
    by (rule properties_for_sort [symmetric]) (simp_all add: sorted_sort_key)
  show ?thesis
    unfolding Object_values_def
    by (simp add: keyed_map [OF a] keyed_map [OF b] c filter_map comp_def del: map_map)
qed






section \<open>The exam read path\<close>

lemma keys_questions_step:
  "map fst (questions_step m r) =
     (if question_id r \<in> set (map fst m) then map fst m else map fst m @ [question_id r])"
  by (auto simp: questions_step_def map_of_eq_None_iff)

lemma keys_foldl_questions_step:
  "map fst (foldl questions_step [] rows) = first_seen (map question_id rows)"
  using keys_foldl_from [of questions_step question_id "[]" rows, OF keys_questions_step]
  by simp

lemma keyed_questions_step:
  "keyed eq_question_id m \<Longrightarrow> keyed eq_question_id (questions_step m r)"
  by (auto simp: keyed_def questions_step_def update_key_def exam_question_of_row_def Let_def)

lemma keyed_foldl_questions_step:
  "keyed eq_question_id m \<Longrightarrow> keyed eq_question_id (foldl questions_step m rows)"
  by (induction rows arbitrary: m) (simp_all add: keyed_questions_step)

lemma set_Object_values [simp]: "set (Object_values m) = snd ` set m"
  by (auto simp: Object_values_def)

lemma exam_question_ids:
  "set (map eq_question_id (exam_questions b s)) = question_id ` set (exam_query b s)"
proof -
  have k: "keyed eq_question_id (foldl questions_step [] (exam_query b s))"
    by (rule keyed_foldl_questions_step) (simp add: keyed_def)
  have "set (map eq_question_id (exam_questions b s))
      = set (map eq_question_id (map snd (foldl questions_step [] (exam_query b s))))"
    by (simp add: exam_questions_def image_image)
  also have "\<dots> = set (map fst (foldl questions_step [] (exam_query b s)))"
    by (simp only: keyed_map [OF k])
  finally show ?thesis
    by (simp add: keys_foldl_questions_step)
qed

text \<open>The inner join keeps exactly the questions of the batch that have an option.\<close>

lemma exam_query_ids:
  "question_id ` set (exam_query b s) =
     {q_question_id q | q. q \<in> set (questions s) \<and> q_batch_id q = b
         \<and> (\<exists>qo\<in>set (question_options s). qo_question_id qo = q_question_id q)}"
  by (fastforce simp: exam_query_def exam_join_row_def image_iff)

lemma has_options_step: "has_options m \<Longrightarrow> has_options (questions_step m r)"
  by (auto simp: has_options_def questions_step_def update_key_def Let_def split: if_splits)

lemma has_options_foldl: "has_options m \<Longrightarrow> has_options (foldl questions_step m rows)"
  by (induction rows arbitrary: m) (simp_all add: has_options_step)

text \<open>
  Claim C9. The exam read path joins questions to their options with an inner join: for
  every batch, the identifier of a stored question that no option row refers to is not
  among the questions of the answer, and no question of the answer has an empty option
  sequence.
\<close>

theorem question_without_options_absent:
  assumes "q \<in> set (questions s)"
    and "\<forall>qo\<in>set (question_options s). qo_question_id qo \<noteq> q_question_id q"
  shows "q_question_id q \<notin> set (map eq_question_id (exam_questions b s))
    \<and> (\<forall>e\<in>set (exam_questions b s). eq_options e \<noteq> [])"
proof -
  have "has_options (foldl questions_step [] (exam_query b s))"
    by (rule has_options_foldl) (simp add: has_options_def)
  then have "\<forall>e\<in>set (exam_questions b s). eq_options e \<noteq> []"
    by (auto simp: exam_questions_def has_options_def)
  moreover have "q_question_id q \<notin> set (map eq_question_id (exam_questions b s))"
    unfolding exam_question_ids exam_query_ids using assms(2) by auto
  ultimately show ?thesis by simp
qed

theorem question_without_options_absent_witness:
  "blank_question 2 \<in> set (questions exam_store)
   \<and> list_all (\<lambda>qo. qo_question_id qo \<noteq> q_question_id (blank_question 2))
         (question_options exam_store)
   \<and> map eq_question_id (exam_questions 1 exam_store) = [1]
   \<and> q_question_id (blank_question 2) \<notin> set (map eq_question_id (exam_questions 1 exam_store))
   \<and> list_all (\<lambda>e. eq_options e \<noteq> []) (exam_questions 1 exam_store)"
proof -
  have a: "blank_question 2 \<in> set (questions exam_store)"
    by (simp add: exam_store_def empty_store_def)
  have b: "\<forall>qo\<in>set (question_options exam_store).
         qo_question_id qo \<noteq> q_question_id (blank_question 2)"
    by (simp add: exam_store_def empty_store_def blank_question_def)
  have c: "map eq_question_id (exam_questions 1 exam_store) = [1]"
    by (simp add: exam_questions_def exam_query_def exam_store_def empty_store_def
          blank_question_def exam_join_row_def questions_step_def update_key_def
          exam_question_of_row_def Object_values_def is_array_index_def)
  show ?thesis
    using a b c question_without_options_absent [OF a b, of 1]
    by (simp add: list_all_iff)
qed

section \<open>Rejected statements and rollback\<close>

lemma snapshot_run_query [simp]: "snapshot (snd (run_query F stmt c)) = snapshot c"
  by (simp add: run_query_def split: option.splits prod.splits)

lemma outcome_run_query: "outcome F (issued c) 1 (run_query F stmt c)"
  by (simp add: outcome_def run_query_def split: option.splits prod.splits)

lemma outcome_nil: "outcome F (issued c) 0 (Inr u, c)"
  by (simp add: outcome_def)

lemma outcome_bind:
  assumes "outcome F i n1 r1"
    and "\<And>u c'. r1 = (Inr u, c') \<Longrightarrow> outcome F (i + n1) n2 (k u c')"
  shows "outcome F i (n1 + n2)
           (case r1 of (Inl err, c') \<Rightarrow> (Inl err, c') | (Inr u, c') \<Rightarrow> k u c')"
proof (cases r1)
  case (Pair a c')
  show ?thesis
  proof (cases a)
    case (Inl err)
    obtain msg where err: "err = Error msg" by (cases err)
    from assms(1) Pair Inl err obtain k where "k < n1" "F (i + k) = Some msg" "\<forall>j<k. F (i + j) = None"
      by (auto simp: outcome_def)
    then have "\<exists>k<n1 + n2. F (i + k) = Some msg \<and> (\<forall>j<k. F (i + j) = None)"
      by (intro exI [of _ k]) auto
    with Pair Inl err show ?thesis by (simp add: outcome_def)
  next
    case (Inr u)
    from assms(1) Pair Inr have a: "\<forall>j<n1. F (i + j) = None"
      by (simp add: outcome_def)
    from assms(2) Pair Inr have o: "outcome F (i + n1) n2 (k u c')" by simp
    obtain b c'' where kk: "k u c' = (b, c'')" by (cases "k u c'")
    show ?thesis
    proof (cases b)
      case (Inl err)
      obtain msg where err: "err = Error msg" by (cases err)
      from o kk Inl err obtain m where m: "m < n2" "F (i + n1 + m) = Some msg" "\<forall>j<m. F (i + n1 + j) = None"
        by (auto simp: outcome_def)
      have "\<forall>j<n1 + m. F (i + j) = None"
      proof (intro allI impI)
        fix j assume "j < n1 + m"
        show "F (i + j) = None"
        proof (cases "j < n1")
          case True with a show ?thesis by simp
        next
          case False
          then have "j - n1 < m" using \<open>j < n1 + m\<close> by simp
          with m(3) have "F (i + n1 + (j - n1)) = None" by blast
          with False show ?thesis by simp
        qed
      qed
      with m(1,2) have "\<exists>k<n1 + n2. F (i + k) = Some msg \<and> (\<forall>j<k. F (i + j) = None)"
        by (intro exI [of _ "n1 + m"]) (simp add: add.assoc)
      with Pair \<open>a = Inr u\<close> kk Inl err show ?thesis by (simp add: outcome_def)
    next
      case (Inr w)
      from o kk Inr have m: "issued c'' = i + n1 + n2" "\<forall>j<n2. F (i + n1 + j) = None"
        by (auto simp: outcome_def)
      have "\<forall>j<n1 + n2. F (i + j) = None"
      proof (intro allI impI)
        fix j assume "j < n1 + n2"
        show "F (i + j) = None"
        proof (cases "j < n1")
          case True with a show ?thesis by simp
        next
          case False
          then have "j - n1 < n2" using \<open>j < n1 + n2\<close> by simp
          with m(2) have "F (i + n1 + (j - n1)) = None" by blast
          with False show ?thesis by simp
        qed
      qed
      with Pair \<open>a = Inr u\<close> kk Inr m(1) show ?thesis by (simp add: outcome_def)
    qed
  qed
qed

lemma issued_run_query: "run_query F stmt c = (Inr u, c') \<Longrightarrow> issued c' = Suc (issued c)"
  by (auto simp: run_query_def split: option.splits prod.splits)

lemma outcome_vocab_loop:
  "outcome F (issued c) (length vs) (insert_vocab_loop F e vs c)"
proof (induction vs arbitrary: c)
  case Nil
  show ?case by (simp add: outcome_nil)
next
  case (Cons v vs)
  have "outcome F (issued c) (1 + length vs)
     (case run_query F (INSERT_Vocabulary e (vd_word v) (vd_romaji v) (vd_meaning v)) c of
        (Inl err, c') \<Rightarrow> (Inl err, c') | (Inr u, c') \<Rightarrow> insert_vocab_loop F e vs c')"
  proof (rule outcome_bind [OF outcome_run_query])
    fix u c' assume "run_query F (INSERT_Vocabulary e (vd_word v) (vd_romaji v) (vd_meaning v)) c = (Inr u, c')"
    then have "issued c' = issued c + 1" by (simp add: issued_run_query)
    with Cons.IH [of c'] show "outcome F (issued c + 1) (length vs) (insert_vocab_loop F e vs c')"
      by simp
  qed
  then show ?case by simp
qed


lemma outcome_example_loop:
  "outcome F (issued c) (sum_list (map (\<lambda>e. 1 + length (ed_vocab e)) es))
     (insert_example_loop F g es c)"
proof (induction es arbitrary: c)
  case Nil
  show ?case by (simp add: outcome_nil)
next
  case (Cons e es)
  let ?n = "sum_list (map (\<lambda>e. 1 + length (ed_vocab e)) es)"
  have "outcome F (issued c) (1 + (length (ed_vocab e) + ?n))
     (case run_query F (INSERT_Examples g (ed_japanese e) (ed_romaji e) (ed_english e)) c of
        (Inl err, c') \<Rightarrow> (Inl err, c')
      | (Inr x, c') \<Rightarrow>
          (case insert_vocab_loop F x (ed_vocab e) c' of
             (Inl err, c'') \<Rightarrow> (Inl err, c'')
           | (Inr u, c'') \<Rightarrow> insert_example_loop F g es c''))"
  proof (rule outcome_bind [OF outcome_run_query])
    fix x c'
    assume "run_query F (INSERT_Examples g (ed_japanese e) (ed_romaji e) (ed_english e)) c
              = (Inr x, c')"
    then have i: "issued c + 1 = issued c'" by (simp add: issued_run_query)
    show "outcome F (issued c + 1) (length (ed_vocab e) + ?n)
            (case insert_vocab_loop F x (ed_vocab e) c' of
               (Inl err, c'') \<Rightarrow> (Inl err, c'')
             | (Inr u, c'') \<Rightarrow> insert_example_loop F g es c'')"
      unfolding i
    proof (rule outcome_bind [OF outcome_vocab_loop])
      fix u c''
      assume "insert_vocab_loop F x (ed_vocab e) c' = (Inr u, c'')"
      with outcome_vocab_loop [of F c' "ed_vocab e" x]
      have "issued c'' = issued c' + length (ed_vocab e)" by (simp add: outcome_def)
      with Cons.IH [of c'']
      show "outcome F (issued c' + length (ed_vocab e)) ?n (insert_example_loop F g es c'')"
        by simp
    qed
  qed
  then show ?case by (simp add: add.assoc)
qed

lemma outcome_insert_grammar:
  "outcome F (issued c) (statements_of d) (insert_grammar F d c)"
  unfolding insert_grammar_def statements_of_def
proof (rule outcome_bind [OF outcome_run_query])
  fix g c'
  assume "run_query F (INSERT_GrammarPoints (gd_concept d) (gd_meaning d) (gd_details d)) c
            = (Inr g, c')"
  then have i: "issued c + 1 = issued c'" by (simp add: issued_run_query)
  have "outcome F (issued c')
          (sum_list (map (\<lambda>e. 1 + length (ed_vocab e)) (gd_examples d)) + 0)
          (case insert_example_loop F g (gd_examples d) c' of
             (Inl err, c'') \<Rightarrow> (Inl err, c'')
           | (Inr u, c'') \<Rightarrow> (Inr g, c''))"
  proof (rule outcome_bind [OF outcome_example_loop])
    fix u c''
    assume "insert_example_loop F g (gd_examples d) c' = (Inr u, c'')"
    with outcome_example_loop [of F c' "gd_examples d" g]
    have "issued c'' = issued c' + sum_list (map (\<lambda>e. 1 + length (ed_vocab e)) (gd_examples d))"
      by (simp add: outcome_def)
    then show "outcome F (issued c' + sum_list (map (\<lambda>e. 1 + length (ed_vocab e)) (gd_examples d)))
                 0 (Inr g, c'')"
      by (simp add: outcome_def)
  qed
  then show "outcome F (issued c + 1) (sum_list (map (\<lambda>e. 1 + length (ed_vocab e)) (gd_examples d)))
          (case insert_example_loop F g (gd_examples d) c' of
             (Inl err, c'') \<Rightarrow> (Inl err, c'')
           | (Inr u, c'') \<Rightarrow> (Inr g, c''))"
    using i by simp
qed

lemma snapshot_vocab_loop [simp]:
  "snapshot (snd (insert_vocab_loop F e vs c)) = snapshot c"
proof (induction vs arbitrary: c)
  case Nil
  show ?case by simp
next
  case (Cons v vs)
  obtain a c' where r: "run_query F (INSERT_Vocabulary e (vd_word v) (vd_romaji v) (vd_meaning v)) c = (a, c')"
    by (cases "run_query F (INSERT_Vocabulary e (vd_word v) (vd_romaji v) (vd_meaning v)) c")
  have s: "snapshot c' = snapshot c"
    using snapshot_run_query [of F "INSERT_Vocabulary e (vd_word v) (vd_romaji v) (vd_meaning v)" c] r
    by simp
  show ?case
    using Cons.IH [of c'] by (cases a) (simp_all add: r s)
qed

lemma snapshot_example_loop [simp]:
  "snapshot (snd (insert_example_loop F g es c)) = snapshot c"
proof (induction es arbitrary: c)
  case Nil
  show ?case by simp
next
  case (Cons e es)
  obtain a c' where r: "run_query F (INSERT_Examples g (ed_japanese e) (ed_romaji e) (ed_english e)) c = (a, c')"
    by (cases "run_query F (INSERT_Examples g (ed_japanese e) (ed_romaji e) (ed_english e)) c")
  have s: "snapshot c' = snapshot c"
    using snapshot_run_query [of F "INSERT_Examples g (ed_japanese e) (ed_romaji e) (ed_english e)" c] r
    by simp
  show ?case
  proof (cases a)
    case (Inl err)
    then show ?thesis by (simp add: r s)
  next
    case (Inr x)
    obtain b c'' where l: "insert_vocab_loop F x (ed_vocab e) c' = (b, c'')"
      by (cases "insert_vocab_loop F x (ed_vocab e) c'")
    have s': "snapshot c'' = snapshot c"
      using snapshot_vocab_loop [of F x "ed_vocab e" c'] l s by simp
    show ?thesis
      using Cons.IH [of c''] by (cases b) (simp_all add: r Inr l s')
  qed
qed

lemma snapshot_insert_grammar [simp]:
  "snapshot (snd (insert_grammar F d c)) = snapshot c"
proof -
  obtain a c' where r: "run_query F (INSERT_GrammarPoints (gd_concept d) (gd_meaning d) (gd_details d)) c = (a, c')"
    by (cases "run_query F (INSERT_GrammarPoints (gd_concept d) (gd_meaning d) (gd_details d)) c")
  have s: "snapshot c' = snapshot c"
    using snapshot_run_query [of F "INSERT_GrammarPoints (gd_concept d) (gd_meaning d) (gd_details d)" c] r
    by simp
  show ?thesis
  proof (cases a)
    case (Inl err)
    then show ?thesis by (simp add: insert_grammar_def r s)
  next
    case (Inr g)
    obtain b c'' where l: "insert_example_loop F g (gd_examples d) c' = (b, c'')"
      by (cases "insert_example_loop F g (gd_examples d) c'")
    have "snapshot c'' = snapshot c"
      using snapshot_example_loop [of F g "gd_examples d" c'] l s by simp
    then show ?thesis
      by (cases b) (simp_all add: insert_grammar_def r Inr l)
  qed
qed

lemma cascading_insert_failure:
  assumes "k < statements_of d" and "F k \<noteq> None"
  shows "\<exists>msg k. k < statements_of d \<and> F k = Some msg \<and> (\<forall>j<k. F j = None)
           \<and> cascading_insert F d s = (Status500 msg, s)"
proof -
  obtain a c where r: "insert_grammar F d (tx_begin 0 s) = (a, c)"
    by (cases "insert_grammar F d (tx_begin 0 s)")
  have o: "outcome F 0 (statements_of d) (a, c)"
    using outcome_insert_grammar [of F "tx_begin 0 s" d] unfolding r by (simp add: tx_begin_def)
  have sn: "snapshot c = s"
    using snapshot_insert_grammar [of F d "tx_begin 0 s"] unfolding r by (simp add: tx_begin_def)
  show ?thesis
  proof (cases a)
    case (Inr g)
    with o assms show ?thesis by (auto simp: outcome_def)
  next
    case (Inl err)
    obtain msg where err: "err = Error msg" by (cases err)
    from o Inl err obtain k' where "k' < statements_of d" "F k' = Some msg" "\<forall>j<k'. F j = None"
      by (auto simp: outcome_def)
    moreover have "cascading_insert F d s = (Status500 msg, s)"
      by (simp add: cascading_insert_def r Inl err tx_rollback_def sn)
    ultimately show ?thesis by blast
  qed
qed


lemma outcome_option_loop:
  "outcome F (issued c) (length opts) (insert_option_loop F q a opts c)"
proof (induction opts arbitrary: c)
  case Nil
  show ?case by (simp add: outcome_nil)
next
  case (Cons opt opts)
  have "outcome F (issued c) (1 + length opts)
     (case run_query F (INSERT_question_options q opt (opt = a)) c of
        (Inl err, c') \<Rightarrow> (Inl err, c') | (Inr u, c') \<Rightarrow> insert_option_loop F q a opts c')"
  proof (rule outcome_bind [OF outcome_run_query])
    fix u c' assume "run_query F (INSERT_question_options q opt (opt = a)) c = (Inr u, c')"
    then have "issued c' = issued c + 1" by (simp add: issued_run_query)
    with Cons.IH [of c'] show "outcome F (issued c + 1) (length opts) (insert_option_loop F q a opts c')"
      by simp
  qed
  then show ?case by simp
qed

lemma outcome_question_loop:
  "outcome F (issued c) (question_statements qs) (insert_question_loop F b qs c)"
proof (induction qs arbitrary: c)
  case Nil
  show ?case by (simp add: outcome_nil question_statements_def)
next
  case (Cons q qs)
  let ?stmt = "INSERT_questions (qd_question_type q) (qd_question q) (qd_answer q)
                (qd_explanation q) b"
  have "outcome F (issued c) (1 + (length (qd_options q) + question_statements qs))
     (case run_query F ?stmt c of
        (Inl err, c') \<Rightarrow> (Inl err, c')
      | (Inr x, c') \<Rightarrow>
          (case insert_option_loop F x (qd_answer q) (qd_options q) c' of
             (Inl err, c'') \<Rightarrow> (Inl err, c'')
           | (Inr u, c'') \<Rightarrow> insert_question_loop F b qs c''))"
  proof (rule outcome_bind [OF outcome_run_query])
    fix x c'
    assume "run_query F ?stmt c = (Inr x, c')"
    then have i: "issued c + 1 = issued c'" by (simp add: issued_run_query)
    show "outcome F (issued c + 1) (length (qd_options q) + question_statements qs)
            (case insert_option_loop F x (qd_answer q) (qd_options q) c' of
               (Inl err, c'') \<Rightarrow> (Inl err, c'')
             | (Inr u, c'') \<Rightarrow> insert_question_loop F b qs c'')"
      unfolding i
    proof (rule outcome_bind [OF outcome_option_loop])
      fix u c''
      assume "insert_option_loop F x (qd_answer q) (qd_options q) c' = (Inr u, c'')"
      with outcome_option_loop [of F c' "qd_options q" x "qd_answer q"]
      have "issued c'' = issued c' + length (qd_options q)" by (simp add: outcome_def)
      with Cons.IH [of c'']
      show "outcome F (issued c' + length (qd_options q)) (question_statements qs)
              (insert_question_loop F b qs c'')"
        by simp
    qed
  qed
  then show ?case by (simp add: add.assoc question_statements_def)
qed

lemma outcome_insert_batch:
  assumes "gemini gl kl = Inr qs"
  shows "outcome F (issued c) (1 + question_statements qs) (insert_batch F gemini gl kl c)"
  unfolding insert_batch_def
proof (rule outcome_bind [OF outcome_run_query])
  fix b c'
  assume "run_query F (INSERT_QuestionBatch (JSON_stringify gl) (JSON_stringify kl)) c = (Inr b, c')"
  then have i: "issued c + 1 = issued c'" by (simp add: issued_run_query)
  have "outcome F (issued c') (question_statements qs + 0)
          (case insert_question_loop F b qs c' of
             (Inl err, c'') \<Rightarrow> (Inl err, c'')
           | (Inr u, c'') \<Rightarrow>
               (Inr \<lparr>qr_batch_id = b, qr_grammar_used = gl, qr_kanji_used = kl,
                     qr_count = length qs\<rparr>, c''))"
  proof (rule outcome_bind [OF outcome_question_loop])
    fix u c''
    assume "insert_question_loop F b qs c' = (Inr u, c'')"
    with outcome_question_loop [of F c' qs b]
    have "issued c'' = issued c' + question_statements qs"
      by (simp add: outcome_def)
    then show "outcome F (issued c' + question_statements qs) 0
                 (Inr \<lparr>qr_batch_id = b, qr_grammar_used = gl, qr_kanji_used = kl,
                       qr_count = length qs\<rparr>, c'')"
      by (simp add: outcome_def)
  qed
  then show "outcome F (issued c + 1) (question_statements qs)
          (case gemini gl kl of
             Inl err \<Rightarrow> (Inl err, c')
           | Inr qs \<Rightarrow>
               (case insert_question_loop F b qs c' of
                  (Inl err, c'') \<Rightarrow> (Inl err, c'')
                | (Inr u, c'') \<Rightarrow>
                    (Inr \<lparr>qr_batch_id = b, qr_grammar_used = gl, qr_kanji_used = kl,
                          qr_count = length qs\<rparr>, c'')))"
    using i assms by simp
qed

lemma snapshot_option_loop [simp]:
  "snapshot (snd (insert_option_loop F q a opts c)) = snapshot c"
proof (induction opts arbitrary: c)
  case Nil
  show ?case by simp
next
  case (Cons opt opts)
  obtain r c' where r: "run_query F (INSERT_question_options q opt (opt = a)) c = (r, c')"
    by (cases "run_query F (INSERT_question_options q opt (opt = a)) c")
  have s: "snapshot c' = snapshot c"
    using snapshot_run_query [of F "INSERT_question_options q opt (opt = a)" c] r
    by simp
  show ?case
    using Cons.IH [of c'] by (cases r) (simp_all add: r s)
qed

lemma snapshot_question_loop [simp]:
  "snapshot (snd (insert_question_loop F b qs c)) = snapshot c"
proof (induction qs arbitrary: c)
  case Nil
  show ?case by simp
next
  case (Cons q qs)
  let ?stmt = "INSERT_questions (qd_question_type q) (qd_question q) (qd_answer q)
                (qd_explanation q) b"
  obtain a c' where r: "run_query F ?stmt c = (a, c')"
    by (cases "run_query F ?stmt c")
  have s: "snapshot c' = snapshot c"
    using snapshot_run_query [of F ?stmt c] r by simp
  show ?case
  proof (cases a)
    case (Inl err)
    then show ?thesis by (simp add: r s)
  next
    case (Inr x)
    obtain u c'' where l: "insert_option_loop F x (qd_answer q) (qd_options q) c' = (u, c'')"
      by (cases "insert_option_loop F x (qd_answer q) (qd_options q) c'")
    have s': "snapshot c'' = snapshot c"
      using snapshot_option_loop [of F x "qd_answer q" "qd_options q" c'] l s by simp
    show ?thesis
      using Cons.IH [of c''] by (cases u) (simp_all add: r Inr l s')
  qed
qed

lemma snapshot_insert_batch [simp]:
  "snapshot (snd (insert_batch F gemini gl kl c)) = snapshot c"
proof -
  let ?stmt = "INSERT_QuestionBatch (JSON_stringify gl) (JSON_stringify kl)"
  obtain a c' where r: "run_query F ?stmt c = (a, c')"
    by (cases "run_query F ?stmt c")
  have s: "snapshot c' = snapshot c"
    using snapshot_run_query [of F ?stmt c] r by simp
  show ?thesis
  proof (cases a)
    case (Inl err)
    then show ?thesis by (simp add: insert_batch_def r s)
  next
    case (Inr b)
    show ?thesis
    proof (cases "gemini gl kl")
      case (Inl err)
      then show ?thesis by (simp add: insert_batch_def r \<open>a = Inr b\<close> s)
    next
      case (Inr qs)
      obtain u c'' where l: "insert_question_loop F b qs c' = (u, c'')"
        by (cases "insert_question_loop F b qs c'")
      have "snapshot c'' = snapshot c"
        using snapshot_question_loop [of F b qs c'] l s by simp
      then show ?thesis
        by (cases u) (simp_all add: insert_batch_def r \<open>a = Inr b\<close> Inr l)
    qed
  qed
qed

text \<open>Whatever fails, and whenever, the readers' store is the one before the call.\<close>

lemma post_questions_failure_store:
  "fst (post_questions F n1 n2 gemini s) = Status500 msg \<Longrightarrow>
   snd (post_questions F n1 n2 gemini s) = s"
proof -
  assume a: "fst (post_questions F n1 n2 gemini s) = Status500 msg"
  let ?r = "insert_batch F gemini (grammar_sample n1 s) (kanji_sample n2 s) (tx_begin 2 s)"
  obtain x c where r: "?r = (x, c)" by (cases ?r)
  have sn: "snapshot c = s"
    using snapshot_insert_batch [of F gemini "grammar_sample n1 s" "kanji_sample n2 s" "tx_begin 2 s"]
    unfolding r by (simp add: tx_begin_def)
  show ?thesis
  proof (cases x)
    case (Inl err)
    then show ?thesis
      by (cases err) (simp add: post_questions_def r tx_rollback_def sn split: option.splits)
  next
    case (Inr res)
    with a show ?thesis
      by (simp add: post_questions_def r split: option.splits)
  qed
qed

lemma cascading_insert_failure_store:
  "fst (cascading_insert F d s) = Status500 msg \<Longrightarrow> snd (cascading_insert F d s) = s"
proof -
  assume a: "fst (cascading_insert F d s) = Status500 msg"
  obtain x c where r: "insert_grammar F d (tx_begin 0 s) = (x, c)"
    by (cases "insert_grammar F d (tx_begin 0 s)")
  have sn: "snapshot c = s"
    using snapshot_insert_grammar [of F d "tx_begin 0 s"] unfolding r by (simp add: tx_begin_def)
  show ?thesis
  proof (cases x)
    case (Inl err)
    then show ?thesis
      by (cases err) (simp add: cascading_insert_def r tx_rollback_def sn)
  next
    case (Inr g)
    with a show ?thesis
      by (simp add: cascading_insert_def r)
  qed
qed

lemma post_questions_failure:
  assumes g: "gemini (grammar_sample n1 s) (kanji_sample n2 s) = Inr qs"
    and k: "k < 3 + question_statements qs" and f: "F k \<noteq> None"
  shows "\<exists>msg k. k < 3 + question_statements qs \<and> F k = Some msg \<and> (\<forall>j<k. F j = None)
           \<and> post_questions F n1 n2 gemini s = (Status500 msg, s)"
proof (cases "F 0")
  case (Some msg)
  then have "post_questions F n1 n2 gemini s = (Status500 msg, s)"
    by (simp add: post_questions_def)
  with Some show ?thesis by (intro exI [of _ msg] exI [of _ 0]) simp
next
  case None
  note f0 = this
  show ?thesis
  proof (cases "F 1")
    case (Some msg)
    then have "F (Suc 0) = Some msg" by simp
    then have "post_questions F n1 n2 gemini s = (Status500 msg, s)"
      by (simp add: post_questions_def f0)
    moreover have "\<forall>j<1. F j = None" using f0 by simp
    ultimately show ?thesis using Some
      by (intro exI [of _ msg] exI [of _ 1]) simp
  next
    case None
    then have f1: "F (Suc 0) = None" by simp
    have low: "F j = None" if "j < 2" for j
      using that f0 f1 by (cases j) (auto simp: less_Suc_eq)
    let ?r = "insert_batch F gemini (grammar_sample n1 s) (kanji_sample n2 s) (tx_begin 2 s)"
    obtain x c where r: "?r = (x, c)" by (cases ?r)
    have o: "outcome F 2 (1 + question_statements qs) (x, c)"
      using outcome_insert_batch
              [of gemini "grammar_sample n1 s" "kanji_sample n2 s" qs F "tx_begin 2 s", OF g]
      unfolding r by (simp add: tx_begin_def)
    have sn: "snapshot c = s"
      using snapshot_insert_batch [of F gemini "grammar_sample n1 s" "kanji_sample n2 s" "tx_begin 2 s"]
      unfolding r by (simp add: tx_begin_def)
    show ?thesis
    proof (cases x)
      case (Inr res)
      with o have all: "\<forall>j<1 + question_statements qs. F (2 + j) = None"
        by (simp add: outcome_def)
      have "F k = None"
      proof (cases "k < 2")
        case True then show ?thesis by (rule low)
      next
        case False
        then have "k - 2 < 1 + question_statements qs" using k by simp
        with all have "F (2 + (k - 2)) = None" by blast
        moreover have "2 + (k - 2) = k" using False by simp
        ultimately show ?thesis by (simp only:)
      qed
      with f show ?thesis by simp
    next
      case (Inl err)
      obtain msg where err: "err = Error msg" by (cases err)
      from o Inl err obtain k' where k': "k' < 1 + question_statements qs"
        "F (2 + k') = Some msg" "\<forall>j<k'. F (2 + j) = None"
        by (auto simp: outcome_def)
      have before: "\<forall>j<2 + k'. F j = None"
      proof (intro allI impI)
        fix j assume j: "j < 2 + k'"
        show "F j = None"
        proof (cases "j < 2")
          case True then show ?thesis by (rule low)
        next
          case False
          then have "j - 2 < k'" using j by simp
          with k'(3) have "F (2 + (j - 2)) = None" by blast
          moreover have "2 + (j - 2) = j" using False by simp
          ultimately show ?thesis by (simp only:)
        qed
      qed
      have "post_questions F n1 n2 gemini s = (Status500 msg, s)"
        by (simp add: post_questions_def f0 f1 r Inl err tx_rollback_def sn)
      with k'(1,2) before show ?thesis
        by (intro exI [of _ msg] exI [of _ "2 + k'"]) simp
    qed
  qed
qed

text \<open>
  Claim C2. In both write paths, when the store rejects any of the statements the call
  issues (the inserts of every level; in the question path also the two sampling
  queries), the call answers status 500 with the message of the first rejected
  statement and the store the readers see is the store before the call. More generally
  every failing answer of either path, whatever its cause, leaves the prior store, and
  while the statements of a transaction run, rejected or not, the readers' snapshot stays
  the store before the call.
\<close>

theorem rollback_on_failed_insert:
  "(k < statements_of d \<and> F k \<noteq> None \<longrightarrow>
      (\<exists>msg k'. k' < statements_of d \<and> F k' = Some msg \<and> (\<forall>j<k'. F j = None)
         \<and> cascading_insert F d s = (Status500 msg, s)))
   \<and> (gemini (grammar_sample n1 s) (kanji_sample n2 s) = Inr qs
        \<and> k < 3 + question_statements qs \<and> F k \<noteq> None \<longrightarrow>
      (\<exists>msg k'. k' < 3 + question_statements qs \<and> F k' = Some msg \<and> (\<forall>j<k'. F j = None)
         \<and> post_questions F n1 n2 gemini s = (Status500 msg, s)))
   \<and> (fst (cascading_insert F d s) = Status500 m \<longrightarrow> snd (cascading_insert F d s) = s)
   \<and> (fst (post_questions F n1 n2 gemini s) = Status500 m \<longrightarrow>
        snd (post_questions F n1 n2 gemini s) = s)
   \<and> snapshot (snd (insert_grammar F d (tx_begin 0 s))) = s
   \<and> snapshot (snd (insert_batch F gemini gl kl (tx_begin 2 s))) = s"
  using cascading_insert_failure [of k d F s]
    post_questions_failure [of gemini n1 s n2 qs k F]
    cascading_insert_failure_store [of F d s m]
    post_questions_failure_store [of F n1 n2 gemini s m]
    snapshot_insert_grammar [of F d "tx_begin 0 s"]
    snapshot_insert_batch [of F gemini gl kl "tx_begin 2 s"]
  by (simp add: tx_begin_def)

theorem rollback_on_failed_insert_witness:
  "3 < statements_of sample_doc \<and> timeout_at 3 3 \<noteq> None
   \<and> cascading_insert (timeout_at 3) sample_doc empty_store
       = (Status500 ''timeout'', empty_store)
   \<and> (\<lambda>g k. Inr [sample_question [''a'', ''b''] ''a''])
         (grammar_sample id empty_store) (kanji_sample id empty_store)
       = (Inr [sample_question [''a'', ''b''] ''a''] :: error + question_doc list)
   \<and> 5 < 3 + question_statements [sample_question [''a'', ''b''] ''a'']
   \<and> timeout_at 5 5 \<noteq> None
   \<and> post_questions (timeout_at 5) id id
         (\<lambda>g k. Inr [sample_question [''a'', ''b''] ''a'']) empty_store
       = (Status500 ''timeout'', empty_store)"
proof -
  have h1: "3 < statements_of sample_doc \<and> timeout_at 3 3 \<noteq> None"
    by (simp add: statements_of_def sample_doc_def timeout_at_def)
  have h2: "5 < 3 + question_statements [sample_question [''a'', ''b''] ''a'']
      \<and> timeout_at 5 5 \<noteq> None"
    by (simp add: question_statements_def sample_question_def timeout_at_def)
  have t1: "\<exists>msg k'. timeout_at 3 k' = Some msg
      \<and> cascading_insert (timeout_at 3) sample_doc empty_store = (Status500 msg, empty_store)"
    using h1 rollback_on_failed_insert [of 3 sample_doc "timeout_at 3" empty_store]
    by blast
  have t2: "\<exists>msg k'. timeout_at 5 k' = Some msg
      \<and> post_questions (timeout_at 5) id id
            (\<lambda>g k. Inr [sample_question [''a'', ''b''] ''a'']) empty_store
          = (Status500 msg, empty_store)"
    using h2 rollback_on_failed_insert
      [of 5 _ "timeout_at 5" empty_store "\<lambda>g k. Inr [sample_question [''a'', ''b''] ''a'']" id id
          "[sample_question [''a'', ''b''] ''a'']"]
    by blast
  from t1 have r1: "cascading_insert (timeout_at 3) sample_doc empty_store
       = (Status500 ''timeout'', empty_store)"
    by (auto simp: timeout_at_def split: if_splits)
  from t2 have r2: "post_questions (timeout_at 5) id id
         (\<lambda>g k. Inr [sample_question [''a'', ''b''] ''a'']) empty_store
       = (Status500 ''timeout'', empty_store)"
    by (auto simp: timeout_at_def split: if_splits)
  show ?thesis using h1 h2 r1 r2 by simp
qed

section \<open>Writes in which no statement is rejected\<close>

lemma run_query_no_faults:
  "run_query no_faults stmt c =
     (Inr (fst (stmt (working c))),
      c\<lparr>working := snd (stmt (working c)), issued := Suc (issued c)\<rparr>)"
  by (simp add: run_query_def no_faults_def split: prod.splits)

lemma option_loop_no_faults:
  "insert_option_loop no_faults q a opts c =
     (Inr (),
      c\<lparr>working := (working c)
           \<lparr>question_options := question_options (working c)
               @ option_rows q (next_option_id (working c)) a opts,
            next_option_id := next_option_id (working c) + int (length opts)\<rparr>,
        issued := issued c + length opts\<rparr>)"
proof (induction opts arbitrary: c)
  case Nil
  show ?case by simp
next
  case (Cons opt opts)
  show ?case
    by (simp add: run_query_no_faults INSERT_question_options_def Cons.IH add.assoc)
qed

lemma question_loop_no_faults:
  "insert_question_loop no_faults b qs c =
     (Inr (),
      c\<lparr>working := (working c)
           \<lparr>questions := questions (working c)
               @ new_questions b (next_question_id (working c)) qs,
            question_options := question_options (working c)
               @ new_options (next_question_id (working c)) (next_option_id (working c)) qs,
            next_question_id := next_question_id (working c) + int (length qs),
            next_option_id := next_option_id (working c)
               + int (sum_list (map (\<lambda>q. length (qd_options q)) qs))\<rparr>,
        issued := issued c + question_statements qs\<rparr>)"
proof (induction qs arbitrary: c)
  case Nil
  show ?case by (simp add: question_statements_def)
next
  case (Cons q qs)
  show ?case
    by (simp add: run_query_no_faults INSERT_questions_def option_loop_no_faults Cons.IH
          add.assoc question_statements_def question_row_of_def)
qed


text \<open>The store after a question-set call in which nothing is rejected.\<close>

lemma post_questions_no_faults:
  assumes "gemini (grammar_sample n1 s) (kanji_sample n2 s) = Inr qs"
  shows "post_questions no_faults n1 n2 gemini s =
     (Json \<lparr>qr_batch_id = next_batch_id s, qr_grammar_used = grammar_sample n1 s,
            qr_kanji_used = kanji_sample n2 s, qr_count = length qs\<rparr>,
      s\<lparr>QuestionBatch := QuestionBatch s @
           [\<lparr>qb_batch_id = next_batch_id s,
             qb_grammar_list = JSON_stringify (grammar_sample n1 s),
             qb_kanji_list = JSON_stringify (kanji_sample n2 s)\<rparr>],
        next_batch_id := next_batch_id s + 1,
        questions := questions s @ new_questions (next_batch_id s) (next_question_id s) qs,
        question_options := question_options s
           @ new_options (next_question_id s) (next_option_id s) qs,
        next_question_id := next_question_id s + int (length qs),
        next_option_id := next_option_id s
           + int (sum_list (map (\<lambda>q. length (qd_options q)) qs))\<rparr>)"
proof -
  have f: "no_faults k = None" for k
    by (simp add: no_faults_def)
  show ?thesis
    by (simp add: post_questions_def Let_def f insert_batch_def run_query_no_faults
          INSERT_QuestionBatch_def assms question_loop_no_faults tx_begin_def tx_commit_def)
qed

lemma length_ORDER_BY_NEWID [simp]: "length (ORDER_BY_NEWID newid xs) = length xs"
  by (simp add: ORDER_BY_NEWID_def)

lemma mset_ORDER_BY_NEWID [simp]: "mset (ORDER_BY_NEWID newid xs) = mset xs"
proof -
  have "mset (map snd (sort_key fst (zip (map newid [0..<length xs]) xs)))
      = image_mset snd (mset (sort_key fst (zip (map newid [0..<length xs]) xs)))"
    by (simp only: mset_map)
  also have "\<dots> = image_mset snd (mset (zip (map newid [0..<length xs]) xs))"
    by (simp only: mset_sort)
  also have "\<dots> = mset (map snd (zip (map newid [0..<length xs]) xs))"
    by (simp only: mset_map)
  also have "\<dots> = mset xs"
    by (simp add: map_snd_zip)
  finally show ?thesis by (simp add: ORDER_BY_NEWID_def)
qed



lemma vocab_loop_no_faults:
  "insert_vocab_loop no_faults x vs c =
     (Inr (),
      c\<lparr>working := (working c)
           \<lparr>Vocabulary := Vocabulary (working c)
               @ vocabulary_rows x (next_VocabId (working c)) vs,
            next_VocabId := next_VocabId (working c) + int (length vs)\<rparr>,
        issued := issued c + length vs\<rparr>)"
proof (induction vs arbitrary: c)
  case Nil
  show ?case by simp
next
  case (Cons v vs)
  show ?case
    by (simp add: run_query_no_faults INSERT_Vocabulary_def Cons.IH add.assoc)
qed

lemma example_loop_no_faults:
  "insert_example_loop no_faults g es c =
     (Inr (),
      c\<lparr>working := (working c)
           \<lparr>Examples := Examples (working c)
               @ new_examples g (next_ExampleId (working c)) es,
            Vocabulary := Vocabulary (working c)
               @ new_vocabulary (next_ExampleId (working c)) (next_VocabId (working c)) es,
            next_ExampleId := next_ExampleId (working c) + int (length es),
            next_VocabId := next_VocabId (working c)
               + int (sum_list (map (\<lambda>e. length (ed_vocab e)) es))\<rparr>,
        issued := issued c + sum_list (map (\<lambda>e. 1 + length (ed_vocab e)) es)\<rparr>)"
proof (induction es arbitrary: c)
  case Nil
  show ?case by simp
next
  case (Cons e es)
  show ?case
    by (simp add: run_query_no_faults INSERT_Examples_def vocab_loop_no_faults Cons.IH
          add.assoc example_row_of_def)
qed

lemma cascading_insert_no_faults:
  "cascading_insert no_faults d s =
     (Json \<lparr>ir_grammarId = next_GrammarId s, ir_geminiData = d\<rparr>, written d s)"
  by (simp add: cascading_insert_def insert_grammar_def run_query_no_faults
        INSERT_GrammarPoints_def example_loop_no_faults tx_begin_def tx_commit_def
        written_def grammar_row_of_def)



section \<open>The batch selector\<close>



section \<open>The correctness flag of stored options\<close>








lemma length_new_questions [simp]: "length (new_questions b i qs) = length qs"
  by (induction qs arbitrary: i) simp_all





section \<open>No validation between parsing and writing\<close>




section \<open>The sanitizer\<close>

lemma eq_ci_backtick: "eq_ci 0x60 c \<longleftrightarrow> c = 0x60"
proof -
  have "c - 0x20 \<noteq> 0x60" if "0x61 \<le> c" "c \<le> 0x7A"
  proof
    assume "c - 0x20 = 0x60"
    then have "c = 0x60 + 0x20" by (simp add: diff_eq_eq)
    then have "c = 0x80" by simp
    with that(2) show False by simp
  qed
  then show ?thesis
    by (auto simp: eq_ci_def ascii_upper_def)
qed

lemma match_fence_iff: "match_ci fence t \<noteq> None \<longleftrightarrow> take 3 t = fence"
proof (cases t)
  case Nil
  then show ?thesis by (simp add: fence_def)
next
  case (Cons a t1)
  show ?thesis
  proof (cases t1)
    case Nil
    with Cons show ?thesis by (simp add: fence_def eq_ci_backtick)
  next
    case (Cons b t2)
    show ?thesis
    proof (cases t2)
      case Nil
      with \<open>t = a # t1\<close> \<open>t1 = b # t2\<close> show ?thesis by (simp add: fence_def eq_ci_backtick)
    next
      case (Cons c t3)
      with \<open>t = a # t1\<close> \<open>t1 = b # t2\<close> show ?thesis by (auto simp add: fence_def eq_ci_backtick)
    qed
  qed
qed

lemma closes_first_Cons:
  "closes_first (c # cs) \<longleftrightarrow> take 3 (c # cs @ fence) \<noteq> fence \<and> closes_first cs"
proof -
  have "(\<forall>i<Suc (length cs). take 3 (drop i (c # cs @ fence)) \<noteq> fence)
      \<longleftrightarrow> take 3 (drop 0 (c # cs @ fence)) \<noteq> fence
          \<and> (\<forall>i<length cs. take 3 (drop (Suc i) (c # cs @ fence)) \<noteq> fence)"
    by (metis (no_types, lifting) less_Suc_eq_0_disj)
  then show ?thesis
    by (simp add: closes_first_def)
qed

lemma length_fence [simp]: "length fence = 3"
  by (simp add: fence_def)

lemma take3_append: "take 3 (xs @ fence @ post) = take 3 (xs @ fence)"
  by simp

lemma lazy_until_closing:
  "closes_first inner \<Longrightarrow> lazy_until_fence (inner @ fence @ post) = Some inner"
proof (induction inner)
  case Nil
  have "match_ci fence (fence @ post) \<noteq> None"
    unfolding match_fence_iff by (simp add: fence_def)
  then show ?case by (simp add: fence_def)
next
  case (Cons c cs)
  then have a: "take 3 (c # cs @ fence) \<noteq> fence" and b: "closes_first cs"
    by (simp_all add: closes_first_Cons)
  have "take 3 (c # cs @ fence @ post) = take 3 (c # cs @ fence)"
    using take3_append [of "c # cs" post] by (simp only: append_Cons)
  with a have "take 3 (c # cs @ fence @ post) \<noteq> fence"
    by (simp only: simp_thms)
  then have "match_ci fence (c # cs @ fence @ post) = None"
    using match_fence_iff [of "c # cs @ fence @ post"] by simp
  then show ?case
    using Cons.IH [OF b] by simp
qed

lemma space_not_fence: "is_space c \<Longrightarrow> match_ci fence (c # cs) = None"
  by (auto simp: fence_def eq_ci_backtick is_space_def)

lemma lazy_skip_space:
  "lazy_until_fence t =
     map_option ((@) (takeWhile is_space t)) (lazy_until_fence (dropWhile is_space t))"
proof (induction t)
  case Nil
  show ?case by simp
next
  case (Cons c cs)
  show ?case
  proof (cases "is_space c")
    case True
    then show ?thesis
      by (simp add: space_not_fence Cons.IH option.map_comp comp_def)
  next
    case False
    then show ?thesis
      by (simp add: option.map_ident)
  qed
qed

text \<open>Giving whitespace back never finds a match the greedy run did not find.\<close>

lemma greedy_space_then_lazy:
  "greedy_space_then lazy_until_fence t = lazy_until_fence (dropWhile is_space t)"
proof (induction t)
  case Nil
  show ?case by simp
next
  case (Cons c cs)
  show ?case
  proof (cases "is_space c")
    case False
    then show ?thesis by simp
  next
    case True
    show ?thesis
    proof (cases "lazy_until_fence (dropWhile is_space cs)")
      case (Some r)
      with True Cons.IH show ?thesis by simp
    next
      case None
      then have "lazy_until_fence (c # cs) = None"
        using lazy_skip_space [of "c # cs"] True by simp
      with True Cons.IH None show ?thesis by simp
    qed
  qed
qed

lemma match_ci_append:
  "list_all2 eq_ci ps tg \<Longrightarrow> match_ci ps (tg @ rest) = Some rest"
  by (induction ps tg rule: list_all2_induct) simp_all

lemma trim_skip_space: "trim (takeWhile is_space t @ g) = trim g"
proof -
  have "dropWhile is_space (takeWhile is_space t @ g) = dropWhile is_space g"
    by (rule dropWhile_append2) (auto dest: set_takeWhileD)
  then show ?thesis by (simp add: trim_def)
qed

lemma json_fence_at_wrapped:
  assumes tg: "is_json_tag tg" and cl: "closes_first inner"
  shows "\<exists>g. json_fence_at (fence @ tg @ inner @ fence @ post) = Some g \<and> trim g = trim inner"
proof -
  have "list_all2 eq_ci (fence @ tag_json) (fence @ tg)"
    using tg by (simp add: is_json_tag_def fence_def eq_ci_def)
  then have m: "match_ci (fence @ tag_json) ((fence @ tg) @ inner @ fence @ post)
      = Some (inner @ fence @ post)"
    by (rule match_ci_append)
  let ?rest = "inner @ fence @ post"
  have l: "lazy_until_fence ?rest = Some inner"
    using cl by (rule lazy_until_closing)
  then obtain g where g: "lazy_until_fence (dropWhile is_space ?rest) = Some g"
    and i: "inner = takeWhile is_space ?rest @ g"
    using lazy_skip_space [of ?rest] by auto
  have "trim inner = trim g"
    by (subst i) (rule trim_skip_space)
  moreover have "json_fence_at (fence @ tg @ inner @ fence @ post) = Some g"
    using m g by (simp add: json_fence_at_def greedy_space_then_lazy)
  ultimately show ?thesis by simp
qed

lemma js_match_head: "m t = Some g \<Longrightarrow> js_match m t = Some g"
  by (cases t) simp_all

text \<open>
  A text wrapped in a \<open>```json\<close> fence, in any letter case and whatever follows the
  closing fence: both sanitizers return the fence's inner content, trimmed.
\<close>

lemma sanitize_json_fence:
  assumes "is_json_tag tg" and "closes_first inner"
  shows "sanitize_index (fence @ tg @ inner @ fence @ post) = trim inner
    \<and> sanitize_new (fence @ tg @ inner @ fence @ post) = trim inner"
proof -
  from json_fence_at_wrapped [OF assms, of post] obtain g
    where g: "json_fence_at (fence @ tg @ inner @ fence @ post) = Some g"
      and t: "trim g = trim inner"
    by blast
  have "jsonMatch (fence @ tg @ inner @ fence @ post) = Some g"
    by (simp add: jsonMatch_def js_match_head [of json_fence_at _ g, OF g])
  then show ?thesis
    by (simp add: sanitize_index_def sanitize_new_def t)
qed

lemma sanitize_json_fence_example:
  "sanitize_index (fence @ utf16 ''JSON'' @ utf16 '' {} '' @ fence @ utf16 ''bye'') = utf16 ''{}''"
proof -
  have a: "is_json_tag (utf16 ''JSON'')"
    by (simp add: is_json_tag_def utf16_def tag_json_def eq_ci_def ascii_upper_def)
  have b: "closes_first (utf16 '' {} '')"
    by (auto simp: closes_first_def utf16_def fence_def less_Suc_eq)
  show ?thesis
    using sanitize_json_fence [OF a b, of "utf16 ''bye''"]
    by (simp add: trim_def utf16_def is_space_def)
qed

text \<open>The sanitizer of \<open>index.js\<close> trims whatever it takes, the match or the full text.\<close>

lemma sanitize_index_trimmed:
  "sanitize_index t = trim (case jsonMatch t of Some g \<Rightarrow> g | None \<Rightarrow> t)"
  by (simp add: sanitize_index_def split: option.splits)

text \<open>
  Claim C5. The sanitizer takes the inner content of the first \<open>json\<close>-tagged fence, else
  of the first fence, else the full text, and trims the result. In \<open>index.js\<close> it does; in
  \<open>new.js\<close> the branch for a text without a fence is missing, and such a text comes back
  with its surrounding whitespace: for the text \<open>" [] "\<close> the sanitizer of \<open>new.js\<close>
  returns \<open>" [] "\<close>, where trimming gives \<open>"[]"\<close>, which is what \<open>index.js\<close> returns.
\<close>

theorem sanitize_new_keeps_whitespace:
  "sanitize_new (utf16 '' [] '') = utf16 '' [] ''
   \<and> trim (utf16 '' [] '') = utf16 ''[]''
   \<and> sanitize_index (utf16 '' [] '') = utf16 ''[]''"
  by (simp add: sanitize_new_def sanitize_index_def jsonMatch_def json_fence_at_def
        any_fence_at_def utf16_def fence_def tag_json_def eq_ci_def ascii_upper_def trim_def
        is_space_def)

section \<open>Writing a grammar document and reading it back\<close>

lemma join_vocabulary_eq:
  "join_vocabulary s g e =
     example_rows g e (filter (\<lambda>v. vo_ExampleId v = ex_ExampleId e) (Vocabulary s))"
  by (simp add: join_vocabulary_def example_rows_def split: list.splits)

lemma vocabulary_rows_example: "v \<in> set (vocabulary_rows x n vs) \<Longrightarrow> vo_ExampleId v = x"
  by (induction vs arbitrary: n) auto

lemma new_vocabulary_example: "v \<in> set (new_vocabulary i n es) \<Longrightarrow> i \<le> vo_ExampleId v"
proof (induction es arbitrary: i n)
  case Nil
  then show ?case by simp
next
  case (Cons e es)
  then show ?case by (fastforce dest: vocabulary_rows_example)
qed

lemma new_examples_grammar: "e \<in> set (new_examples g i es) \<Longrightarrow> ex_GrammarId e = g"
  by (induction es arbitrary: i) (auto simp: example_row_of_def)

lemma filter_vocabulary_of_example:
  assumes "\<forall>v\<in>set pre. vo_ExampleId v < i"
  shows "filter (\<lambda>v. vo_ExampleId v = i)
           (pre @ vocabulary_rows i n vs @ new_vocabulary (i + 1) n' es)
         = vocabulary_rows i n vs"
proof -
  have a: "filter (\<lambda>v. vo_ExampleId v = i) pre = []"
    using assms by (auto simp: filter_empty_conv)
  have b: "filter (\<lambda>v. vo_ExampleId v = i) (vocabulary_rows i n vs) = vocabulary_rows i n vs"
    by (auto simp: filter_id_conv dest: vocabulary_rows_example)
  have c: "filter (\<lambda>v. vo_ExampleId v = i) (new_vocabulary (i + 1) n' es) = []"
    by (auto simp: filter_empty_conv dest: new_vocabulary_example)
  show ?thesis by (simp add: a b c)
qed

lemma join_new_examples:
  assumes "Vocabulary t = pre @ new_vocabulary i n es"
    and "\<forall>v\<in>set pre. vo_ExampleId v < i"
  shows "concat (map (join_vocabulary t g) (new_examples (gp_GrammarId g) i es)) = doc_rows g i n es"
  using assms
proof (induction es arbitrary: i n pre)
  case Nil
  show ?case by simp
next
  case (Cons e es)
  let ?n' = "n + int (length (ed_vocab e))"
  have v: "Vocabulary t = pre @ vocabulary_rows i n (ed_vocab e) @ new_vocabulary (i + 1) ?n' es"
    using Cons.prems(1) by simp
  have f: "filter (\<lambda>v. vo_ExampleId v = i) (Vocabulary t) = vocabulary_rows i n (ed_vocab e)"
    unfolding v using Cons.prems(2) by (rule filter_vocabulary_of_example)
  have h: "join_vocabulary t g (example_row_of (gp_GrammarId g) i e)
      = example_rows g (example_row_of (gp_GrammarId g) i e) (vocabulary_rows i n (ed_vocab e))"
    using f by (simp add: join_vocabulary_eq example_row_of_def)
  have "Vocabulary t = (pre @ vocabulary_rows i n (ed_vocab e)) @ new_vocabulary (i + 1) ?n' es"
    using v by simp
  moreover have "\<forall>v\<in>set (pre @ vocabulary_rows i n (ed_vocab e)). vo_ExampleId v < i + 1"
    using Cons.prems(2) by (fastforce dest: vocabulary_rows_example)
  ultimately have "concat (map (join_vocabulary t g) (new_examples (gp_GrammarId g) (i + 1) es))
      = doc_rows g (i + 1) ?n' es"
    by (rule Cons.IH)
  with h show ?case by simp
qed

text \<open>The record set of the query for the root a write has just returned.\<close>

lemma unsorted_rows_written:
  assumes wf: "store_wf s"
  shows "concat (map (join_examples (written d s))
            (filter (\<lambda>g. gp_GrammarId g = next_GrammarId s) (GrammarPoints (written d s))))
    = (case gd_examples d of
         [] \<Rightarrow> [join_row (grammar_row_of (next_GrammarId s) d) None None]
       | e # es \<Rightarrow> doc_rows (grammar_row_of (next_GrammarId s) d) (next_ExampleId s)
                    (next_VocabId s) (e # es))"
proof -
  let ?g = "grammar_row_of (next_GrammarId s) d"
  let ?s' = "written d s"
  have g: "filter (\<lambda>g. gp_GrammarId g = next_GrammarId s) (GrammarPoints ?s') = [?g]"
    using wf by (auto simp: written_def store_wf_def keys_ok_def filter_empty_conv grammar_row_of_def)
  have old: "filter (\<lambda>e. ex_GrammarId e = next_GrammarId s) (Examples s) = []"
    using wf by (auto simp: store_wf_def refs_ok_def filter_empty_conv)
  have new: "filter (\<lambda>e. ex_GrammarId e = next_GrammarId s)
               (new_examples (next_GrammarId s) (next_ExampleId s) (gd_examples d))
             = new_examples (next_GrammarId s) (next_ExampleId s) (gd_examples d)"
    by (auto simp: filter_id_conv dest: new_examples_grammar)
  have e: "filter (\<lambda>e. ex_GrammarId e = gp_GrammarId ?g) (Examples ?s')
      = new_examples (next_GrammarId s) (next_ExampleId s) (gd_examples d)"
    by (simp add: written_def grammar_row_of_def old new)
  have v: "Vocabulary ?s' = Vocabulary s
             @ new_vocabulary (next_ExampleId s) (next_VocabId s) (gd_examples d)"
    by (simp add: written_def)
  have p: "\<forall>v\<in>set (Vocabulary s). vo_ExampleId v < next_ExampleId s"
    using wf by (auto simp: store_wf_def refs_ok_def)
  have j: "concat (map (join_vocabulary ?s' ?g)
             (new_examples (gp_GrammarId ?g) (next_ExampleId s) (gd_examples d)))
      = doc_rows ?g (next_ExampleId s) (next_VocabId s) (gd_examples d)"
    using v p by (rule join_new_examples)
  have gi: "gp_GrammarId ?g = next_GrammarId s" by (simp add: grammar_row_of_def)
  show ?thesis
  proof (cases "gd_examples d")
    case Nil
    then show ?thesis
      using e by (simp add: g join_examples_def)
  next
    case (Cons e1 es)
    then obtain x xs where n: "new_examples (next_GrammarId s) (next_ExampleId s) (gd_examples d) = x # xs"
      by (cases "new_examples (next_GrammarId s) (next_ExampleId s) (gd_examples d)") auto
    have "join_examples ?s' ?g = doc_rows ?g (next_ExampleId s) (next_VocabId s) (gd_examples d)"
      using j unfolding gi by (simp add: join_examples_def e [unfolded gi] gi n)
    then show ?thesis
      using Cons by (simp add: g)
  qed
qed


subsection \<open>The rows of a written document are in the order of the query\<close>

lemma vocabulary_rows_ids:
  "map vo_VocabId (vocabulary_rows x n vs) = map (\<lambda>k. n + int k) [0..<length vs]"
proof (induction vs arbitrary: n)
  case Nil
  show ?case by simp
next
  case (Cons v vs)
  have "map (\<lambda>k. n + int k) [0..<Suc (length vs)]
      = n # map (\<lambda>k. n + 1 + int k) [0..<length vs]"
    by (simp add: upt_conv_Cons map_Suc_upt [symmetric] del: upt_Suc)
  then show ?case
    by (simp add: Cons.IH)
qed

lemma sorted_vocabulary_rows: "sorted (map vo_VocabId (vocabulary_rows x n vs))"
  unfolding vocabulary_rows_ids
  by (simp add: sorted_map sorted_wrt_iff_nth_less)

lemma key_example_rows:
  "map (\<lambda>r. (ExampleId r, VocabId r)) (example_rows g e vs)
     = (case vs of [] \<Rightarrow> [(Some (ex_ExampleId e), None)]
        | _ \<Rightarrow> map (\<lambda>v. (Some (ex_ExampleId e), Some (vo_VocabId v))) vs)"
  by (simp add: example_rows_def join_row_def split: list.splits)

lemma sorted_pairs_same_fst:
  "sorted (map f xs) \<Longrightarrow> sorted (map (\<lambda>v. (a, Some (f v))) xs)"
  for f :: "'a \<Rightarrow> int" and a :: "int option"
  by (induction xs) (auto simp: less_eq_prod_def)

lemma sorted_example_rows:
  "sorted (map (\<lambda>r. (ExampleId r, VocabId r)) (example_rows g e (vocabulary_rows x n vs)))"
proof (cases "vocabulary_rows x n vs")
  case Nil
  then show ?thesis by (simp add: key_example_rows)
next
  case (Cons v vs')
  have "sorted (map (\<lambda>v. (Some (ex_ExampleId e), Some (vo_VocabId v))) (vocabulary_rows x n vs))"
    using sorted_vocabulary_rows by (rule sorted_pairs_same_fst)
  then show ?thesis
    by (simp add: key_example_rows Cons)
qed

lemma example_rows_id: "r \<in> set (example_rows g e vs) \<Longrightarrow> ExampleId r = Some (ex_ExampleId e)"
  by (auto simp: example_rows_def join_row_def split: list.splits)

lemma doc_rows_id: "r \<in> set (doc_rows g i n es) \<Longrightarrow> \<exists>x\<ge>i. ExampleId r = Some x"
proof (induction es arbitrary: i n)
  case Nil
  then show ?case by simp
next
  case (Cons e es)
  from Cons.prems consider
      (a) "r \<in> set (example_rows g (example_row_of (gp_GrammarId g) i e)
                      (vocabulary_rows i n (ed_vocab e)))"
    | (b) "r \<in> set (doc_rows g (i + 1) (n + int (length (ed_vocab e))) es)"
    by auto
  then show ?case
  proof cases
    case a
    then have "ExampleId r = Some i"
      by (auto dest: example_rows_id simp: example_row_of_def)
    then show ?thesis by simp
  next
    case b
    from Cons.IH [OF b] show ?thesis by force
  qed
qed

lemma sorted_doc_rows:
  "sorted (map (\<lambda>r. (ExampleId r, VocabId r)) (doc_rows g i n es))"
proof (induction es arbitrary: i n)
  case Nil
  show ?case by simp
next
  case (Cons e es)
  have "(ExampleId r, VocabId r) \<le> (ExampleId r', VocabId r')"
    if "r \<in> set (example_rows g (example_row_of (gp_GrammarId g) i e)
                    (vocabulary_rows i n (ed_vocab e)))"
      and "r' \<in> set (doc_rows g (i + 1) (n + int (length (ed_vocab e))) es)" for r r'
  proof -
    from that(1) have "ExampleId r = Some i"
      by (auto dest: example_rows_id simp: example_row_of_def)
    moreover from doc_rows_id [OF that(2)] obtain x where "i + 1 \<le> x" "ExampleId r' = Some x"
      by blast
    ultimately show ?thesis by (simp add: less_eq_prod_def)
  qed
  then show ?case
    by (auto simp: sorted_append sorted_example_rows Cons.IH)
qed


subsection \<open>Reading the rows of a written document back\<close>

lemma map_of_last:
  "i \<notin> fst ` set m \<Longrightarrow> map_of (m @ [(i, e)]) i = Some e"
  by (simp add: map_add_def map_of_eq_None_iff [THEN iffD2])

lemma push_vocab_last:
  "i \<notin> fst ` set m \<Longrightarrow>
   push_vocab r i (m @ [(i, e)]) = m @ [(i, e\<lparr>ed_vocab := ed_vocab e @ [vocab_of_row r]\<rparr>)]"
  by (induction m) (auto simp: push_vocab_def)

lemma vocab_of_join_row:
  "vocab_of_row (join_row g e (Some \<lparr>vo_VocabId = n, vo_ExampleId = x, vo_Word = vd_word v,
       vo_Romaji = vd_romaji v, vo_Meaning = vd_meaning v\<rparr>)) = v"
  by (simp add: vocab_of_row_def join_row_def)

lemma read_vocabulary_rows:
  assumes "i \<notin> fst ` set m" and "i \<noteq> 0" and "0 < n" and "ex_ExampleId er = i"
  shows "foldl example_step (m @ [(i, e0)])
           (map (\<lambda>v. join_row g (Some er) (Some v)) (vocabulary_rows i n vs))
         = m @ [(i, e0\<lparr>ed_vocab := ed_vocab e0 @ vs\<rparr>)]"
  using assms(3)
proof (induction vs arbitrary: e0 n)
  case Nil
  show ?case by simp
next
  case (Cons v vs)
  let ?v = "\<lparr>vo_VocabId = n, vo_ExampleId = i, vo_Word = vd_word v,
       vo_Romaji = vd_romaji v, vo_Meaning = vd_meaning v\<rparr>"
  let ?r = "join_row g (Some er) (Some ?v)"
  have ids: "ExampleId ?r = Some i" "VocabId ?r = Some n"
    using assms(4) by (simp_all add: join_row_def)
  have look: "map_of (m @ [(i, e0)]) i = Some e0"
    using assms(1) by (rule map_of_last)
  have "example_step (m @ [(i, e0)]) ?r = push_vocab ?r i (m @ [(i, e0)])"
    using assms(2) Cons.prems by (simp add: example_step_def ids truthy_def look del: map_of_append)
  also have "\<dots> = m @ [(i, e0\<lparr>ed_vocab := ed_vocab e0 @ [v]\<rparr>)]"
    using assms(1) by (simp add: push_vocab_last vocab_of_join_row)
  finally have step: "example_step (m @ [(i, e0)]) ?r = m @ [(i, e0\<lparr>ed_vocab := ed_vocab e0 @ [v]\<rparr>)]" .
  have "0 < n + 1" using Cons.prems by simp
  from Cons.IH [OF this, of "e0\<lparr>ed_vocab := ed_vocab e0 @ [v]\<rparr>"] step
  show ?case by simp
qed

lemma example_step_creates:
  assumes "ExampleId r = Some i" and "i \<noteq> 0" and "i \<notin> fst ` set m"
  shows "example_step m r = example_step (m @ [(i, example_of_row r)]) r"
proof -
  have a: "map_of m i = None" using assms(3) by (simp add: map_of_eq_None_iff)
  have b: "map_of (m @ [(i, example_of_row r)]) i = Some (example_of_row r)"
    using assms(3) by (rule map_of_last)
  show ?thesis
    using assms(1,2) by (simp add: example_step_def a b del: map_of_append)
qed

lemma example_of_join_row:
  "example_of_row (join_row g (Some (example_row_of k i e)) v) = e\<lparr>ed_vocab := []\<rparr>"
  by (simp add: example_of_row_def join_row_def example_row_of_def)

lemma read_example_rows:
  assumes "i \<notin> fst ` set m" and "i \<noteq> 0" and "0 < n"
  shows "foldl example_step m
           (example_rows g (example_row_of k i e) (vocabulary_rows i n (ed_vocab e)))
         = m @ [(i, e)]"
proof (cases "ed_vocab e")
  case Nil
  let ?r = "join_row g (Some (example_row_of k i e)) None"
  have ids: "ExampleId ?r = Some i" "VocabId ?r = None"
    by (simp_all add: join_row_def example_row_of_def)
  have "map_of m i = None" using assms(1) by (simp add: map_of_eq_None_iff)
  then have "example_step m ?r = m @ [(i, e\<lparr>ed_vocab := []\<rparr>)]"
    using assms(2)
    by (simp add: example_step_def ids truthy_def example_of_join_row)
  then show ?thesis
    using Nil by (simp add: example_rows_def)
next
  case (Cons v vs)
  let ?er = "example_row_of k i e"
  let ?rows = "map (\<lambda>v. join_row g (Some ?er) (Some v)) (vocabulary_rows i n (ed_vocab e))"
  obtain r rs where rows: "?rows = r # rs"
    using Cons by (cases ?rows) auto
  have r: "ExampleId r = Some i" "example_of_row r = e\<lparr>ed_vocab := []\<rparr>"
    using rows Cons by (auto simp: join_row_def example_row_of_def example_of_row_def)
  have "foldl example_step m ?rows = foldl example_step (example_step m r) rs"
    by (simp add: rows)
  also have "\<dots> = foldl example_step (example_step (m @ [(i, e\<lparr>ed_vocab := []\<rparr>)]) r) rs"
    using example_step_creates [OF r(1) assms(2) assms(1)] by (simp add: r(2))
  also have "\<dots> = foldl example_step (m @ [(i, e\<lparr>ed_vocab := []\<rparr>)]) ?rows"
    by (simp add: rows)
  also have "\<dots> = m @ [(i, e\<lparr>ed_vocab := [] @ ed_vocab e\<rparr>)]"
    using read_vocabulary_rows [OF assms(1) assms(2) assms(3), of ?er "e\<lparr>ed_vocab := []\<rparr>" g "ed_vocab e"]
    by (simp add: example_row_of_def)
  finally show ?thesis
    using Cons by (simp add: example_rows_def)
qed

lemma example_rows_grammar:
  "r \<in> set (example_rows g e vs) \<Longrightarrow>
   Concept r = gp_Concept g \<and> Meaning r = gp_Meaning g \<and> Details r = gp_Details g"
  by (auto simp: example_rows_def join_row_def split: list.splits)

lemma doc_rows_grammar:
  "r \<in> set (doc_rows g i n es) \<Longrightarrow>
   Concept r = gp_Concept g \<and> Meaning r = gp_Meaning g \<and> Details r = gp_Details g"
proof (induction es arbitrary: i n)
  case Nil
  then show ?case by simp
next
  case (Cons e es)
  from Cons.prems consider
      (a) "r \<in> set (example_rows g (example_row_of (gp_GrammarId g) i e)
                      (vocabulary_rows i n (ed_vocab e)))"
    | (b) "r \<in> set (doc_rows g (i + 1) (n + int (length (ed_vocab e))) es)"
    by auto
  then show ?case
  proof cases
    case a
    then show ?thesis by (rule example_rows_grammar)
  next
    case b
    then show ?thesis by (rule Cons.IH)
  qed
qed

lemma read_doc_rows:
  assumes "\<forall>k\<in>fst ` set m. k < i" and "0 < i" and "0 < n"
  shows "map snd (foldl example_step m (doc_rows g i n es)) = map snd m @ es"
  using assms
proof (induction es arbitrary: m i n)
  case Nil
  show ?case by simp
next
  case (Cons e es)
  have a: "i \<notin> fst ` set m" using Cons.prems(1) by auto
  have b: "i \<noteq> 0" using Cons.prems(2) by simp
  have one: "foldl example_step m
           (example_rows g (example_row_of (gp_GrammarId g) i e) (vocabulary_rows i n (ed_vocab e)))
         = m @ [(i, e)]"
    using a b Cons.prems(3) by (rule read_example_rows)
  have "\<forall>k\<in>fst ` set (m @ [(i, e)]). k < i + 1"
    using Cons.prems(1) by auto
  moreover have "0 < i + 1" "0 < n + int (length (ed_vocab e))"
    using Cons.prems(2,3) by simp_all
  ultimately have "map snd (foldl example_step (m @ [(i, e)])
        (doc_rows g (i + 1) (n + int (length (ed_vocab e))) es)) = map snd (m @ [(i, e)]) @ es"
    by (rule Cons.IH)
  then show ?case
    by (simp add: one)
qed

lemma read_written:
  assumes "store_wf s"
  shows "get_grammar (next_GrammarId s) (written d s) = Json d"
proof -
  let ?g = "grammar_row_of (next_GrammarId s) d"
  let ?rows = "case gd_examples d of
         [] \<Rightarrow> [join_row ?g None None]
       | e # es \<Rightarrow> doc_rows ?g (next_ExampleId s) (next_VocabId s) (e # es)"
  have sorted: "sorted (map (\<lambda>r. (ExampleId r, VocabId r)) ?rows)"
    by (cases "gd_examples d") (simp_all add: sorted_doc_rows del: doc_rows.simps)
  have q: "grammar_by_id_query (next_GrammarId s) (written d s) = ?rows"
    unfolding grammar_by_id_query_def unsorted_rows_written [OF assms]
    using sorted by (rule sort_key_id_if_sorted)
  have pos: "0 < next_ExampleId s" "0 < next_VocabId s"
    using assms by (simp_all add: store_wf_def)
  have "grammar_response ?rows = Json d"
  proof (cases "gd_examples d")
    case Nil
    then show ?thesis
      by (simp add: grammar_response_def transform_rows_def example_step_def join_row_def
            grammar_row_of_def)
  next
    case (Cons e es)
    have ex: "map snd (foldl example_step [] (doc_rows ?g (next_ExampleId s) (next_VocabId s)
                 (gd_examples d))) = map snd [] @ gd_examples d"
      using read_doc_rows [of "[]" "next_ExampleId s" "next_VocabId s" ?g "gd_examples d"] pos
      by simp
    obtain r rs where rows: "doc_rows ?g (next_ExampleId s) (next_VocabId s) (gd_examples d) = r # rs"
      using Cons
      by (cases "doc_rows ?g (next_ExampleId s) (next_VocabId s) (gd_examples d)")
         (auto simp: example_rows_def split: list.splits)
    have "r \<in> set (doc_rows ?g (next_ExampleId s) (next_VocabId s) (gd_examples d))"
      by (simp add: rows)
    then have g: "Concept r = gd_concept d \<and> Meaning r = gd_meaning d \<and> Details r = gd_details d"
      using doc_rows_grammar [of r ?g] by (simp add: grammar_row_of_def)
    show ?thesis
      using ex g Cons rows
      by (simp add: grammar_response_def transform_rows_def del: doc_rows.simps)
  qed
  then show ?thesis
    by (simp add: get_grammar_def q)
qed

lemma run_query_accepted:
  "F (issued c) = None \<Longrightarrow> run_query F stmt c = run_query no_faults stmt c"
  by (simp add: run_query_def no_faults_def)

lemma vocab_loop_accepted:
  "\<forall>j<length vs. F (issued c + j) = None \<Longrightarrow>
   insert_vocab_loop F x vs c = insert_vocab_loop no_faults x vs c"
proof (induction vs arbitrary: c)
  case Nil
  show ?case by simp
next
  case (Cons v vs)
  let ?stmt = "INSERT_Vocabulary x (vd_word v) (vd_romaji v) (vd_meaning v)"
  have f0: "F (issued c) = None" using Cons.prems by force
  obtain u c' where r: "run_query no_faults ?stmt c = (Inr u, c')" and i: "issued c' = Suc (issued c)"
    by (simp add: run_query_no_faults)
  have "\<forall>j<length vs. F (issued c' + j) = None"
  proof (intro allI impI)
    fix j assume "j < length vs"
    then have "Suc j < length (v # vs)" by simp
    with Cons.prems have "F (issued c + Suc j) = None" by blast
    then show "F (issued c' + j) = None" by (simp add: i)
  qed
  from Cons.IH [OF this] show ?case
    by (simp add: run_query_accepted [of F c, OF f0] r)
qed

lemma example_loop_accepted:
  "\<forall>j < sum_list (map (\<lambda>e. 1 + length (ed_vocab e)) es). F (issued c + j) = None \<Longrightarrow>
   insert_example_loop F g es c = insert_example_loop no_faults g es c"
proof (induction es arbitrary: c)
  case Nil
  show ?case by simp
next
  case (Cons e es)
  let ?stmt = "INSERT_Examples g (ed_japanese e) (ed_romaji e) (ed_english e)"
  let ?n = "sum_list (map (\<lambda>e. 1 + length (ed_vocab e)) es)"
  have all: "F (issued c + j) = None" if "j < 1 + length (ed_vocab e) + ?n" for j
    using Cons.prems that by simp
  have f0: "F (issued c) = None" using all [of 0] by simp
  obtain x c' where r: "run_query no_faults ?stmt c = (Inr x, c')" and i: "issued c' = Suc (issued c)"
    by (simp add: run_query_no_faults)
  have v: "\<forall>j<length (ed_vocab e). F (issued c' + j) = None"
  proof (intro allI impI)
    fix j assume "j < length (ed_vocab e)"
    then have "F (issued c + Suc j) = None" by (intro all) simp
    then show "F (issued c' + j) = None" by (simp add: i)
  qed
  obtain c'' where l: "insert_vocab_loop no_faults x (ed_vocab e) c' = (Inr (), c'')"
    and i': "issued c'' = issued c' + length (ed_vocab e)"
    by (simp add: vocab_loop_no_faults)
  have "\<forall>j<?n. F (issued c'' + j) = None"
  proof (intro allI impI)
    fix j assume "j < ?n"
    then have "F (issued c + (Suc (length (ed_vocab e)) + j)) = None" by (intro all) simp
    then show "F (issued c'' + j) = None" by (simp add: i i' add.assoc)
  qed
  from Cons.IH [OF this] show ?case
    by (simp add: run_query_accepted [of F c, OF f0] r vocab_loop_accepted [OF v] l)
qed

lemma insert_grammar_accepted:
  assumes "\<forall>j < statements_of d. F (issued c + j) = None"
  shows "insert_grammar F d c = insert_grammar no_faults d c"
proof -
  let ?stmt = "INSERT_GrammarPoints (gd_concept d) (gd_meaning d) (gd_details d)"
  let ?n = "sum_list (map (\<lambda>e. 1 + length (ed_vocab e)) (gd_examples d))"
  have all: "F (issued c + j) = None" if "j < 1 + ?n" for j
    using assms that by (simp add: statements_of_def)
  have f0: "F (issued c) = None" using all [of 0] by simp
  obtain g c' where r: "run_query no_faults ?stmt c = (Inr g, c')" and i: "issued c' = Suc (issued c)"
    by (simp add: run_query_no_faults)
  have "\<forall>j<?n. F (issued c' + j) = None"
  proof (intro allI impI)
    fix j assume "j < ?n"
    then have "F (issued c + Suc j) = None" by (intro all) simp
    then show "F (issued c' + j) = None" by (simp add: i)
  qed
  then show ?thesis
    by (simp add: insert_grammar_def run_query_accepted [of F c, OF f0] r example_loop_accepted)
qed

text \<open>A write that succeeds is the write in which nothing is rejected.\<close>

lemma cascading_insert_success:
  assumes "cascading_insert F d s = (Json r, s')"
  shows "r = \<lparr>ir_grammarId = next_GrammarId s, ir_geminiData = d\<rparr> \<and> s' = written d s"
proof -
  obtain a c where x: "insert_grammar F d (tx_begin 0 s) = (a, c)"
    by (cases "insert_grammar F d (tx_begin 0 s)")
  have o: "outcome F 0 (statements_of d) (a, c)"
    using outcome_insert_grammar [of F "tx_begin 0 s" d] unfolding x by (simp add: tx_begin_def)
  show ?thesis
  proof (cases a)
    case (Inl err)
    with assms x show ?thesis
      by (cases err) (simp add: cascading_insert_def)
  next
    case (Inr g)
    with o have "\<forall>j < statements_of d. F (issued (tx_begin 0 s) + j) = None"
      by (simp add: outcome_def tx_begin_def)
    then have "insert_grammar F d (tx_begin 0 s) = insert_grammar no_faults d (tx_begin 0 s)"
      by (rule insert_grammar_accepted)
    then have "cascading_insert F d s = cascading_insert no_faults d s"
      by (simp add: cascading_insert_def)
    with assms show ?thesis
      by (simp add: cascading_insert_no_faults)
  qed
qed

text \<open>
  Claim C1. For every grammar document (its fields text or null, so every valid one),
  written by the cascading writer into a store the writers produce: when the write
  succeeds, reading the root identifier it returned gives a document equal to the one
  written. The answer of \<open>GET /api/grammar/:id\<close> carries no identifier field.
\<close>

theorem write_then_read:
  assumes "store_wf s" and "cascading_insert F d s = (Json r, s')"
  shows "ir_geminiData r = d \<and> get_grammar (ir_grammarId r) s' = Json d"
  using cascading_insert_success [OF assms(2)] read_written [OF assms(1), of d]
  by simp

theorem write_then_read_witness:
  "store_wf empty_store
   \<and> valid_GrammarDocument sample_doc
   \<and> cascading_insert no_faults sample_doc empty_store
       = (Json \<lparr>ir_grammarId = 1, ir_geminiData = sample_doc\<rparr>, written sample_doc empty_store)
   \<and> get_grammar 1 (written sample_doc empty_store) = Json sample_doc
   \<and> map (\<lambda>e. length (ed_vocab e)) (gd_examples sample_doc) = [2]"
proof -
  have a: "store_wf empty_store"
    by (simp add: store_wf_def empty_store_def keys_ok_def refs_ok_def)
  have b: "cascading_insert no_faults sample_doc empty_store
       = (Json \<lparr>ir_grammarId = 1, ir_geminiData = sample_doc\<rparr>, written sample_doc empty_store)"
    by (simp add: cascading_insert_no_faults) (simp add: empty_store_def)
  have v: "valid_GrammarDocument sample_doc"
    by (simp add: valid_GrammarDocument_def valid_example_def valid_vocab_def sample_doc_def
          sample_vocab_def)
  show ?thesis
    using a b v write_then_read [OF a b] by (simp add: sample_doc_def)
qed

section \<open>One node per identifier\<close>

subsection \<open>The example map of a record set\<close>

lemma keys_push_vocab [simp]: "map fst (push_vocab r k m) = map fst m"
  by (induction m) (auto simp: push_vocab_def)

lemma keys_example_step:
  "map fst (example_step m r) =
     (case ExampleId r of
        None \<Rightarrow> map fst m
      | Some k \<Rightarrow> if k \<noteq> 0 \<and> k \<notin> set (map fst m) then map fst m @ [k] else map fst m)"
  by (auto simp: example_step_def Let_def map_of_eq_None_iff split: option.splits)

lemma distinct_example_step:
  "distinct (map fst m) \<Longrightarrow> distinct (map fst (example_step m r))"
  by (simp add: keys_example_step split: option.splits)

lemma distinct_foldl_example_step:
  "distinct (map fst m) \<Longrightarrow> distinct (map fst (foldl example_step m rows))"
  by (induction rows arbitrary: m) (simp_all add: distinct_example_step)

lemma keys_foldl_example_step:
  "set (map fst (foldl example_step m rows)) = set (map fst m) \<union> example_ids rows"
proof (induction rows arbitrary: m)
  case Nil
  show ?case by (simp add: example_ids_def)
next
  case (Cons r rows)
  have "example_ids (r # rows) =
      (case ExampleId r of None \<Rightarrow> {} | Some k \<Rightarrow> if k \<noteq> 0 then {k} else {}) \<union> example_ids rows"
    by (auto simp: example_ids_def image_iff split: option.splits if_splits)
  moreover have "set (map fst (example_step m r)) =
      set (map fst m) \<union> (case ExampleId r of None \<Rightarrow> {} | Some k \<Rightarrow> if k \<noteq> 0 then {k} else {})"
    by (auto simp: keys_example_step split: option.splits)
  ultimately show ?case
    using Cons.IH [of "example_step m r"] by auto
qed

lemma map_of_push_vocab:
  "map_of (push_vocab r k m) x =
     map_option (\<lambda>e. if x = k then e\<lparr>ed_vocab := ed_vocab e @ [vocab_of_row r]\<rparr> else e)
       (map_of m x)"
  by (induction m) (auto simp: push_vocab_def)

lemma leaves_of_push_vocab:
  "leaves_of (push_vocab r k m) x =
     (if x = k \<and> map_of m x \<noteq> None then Suc (leaves_of m x) else leaves_of m x)"
  by (auto simp: leaves_of_def map_of_push_vocab split: option.splits)

lemma leaves_of_append_new:
  "map_of m k = None \<Longrightarrow>
   leaves_of (m @ [(k, e)]) x = (if x = k then length (ed_vocab e) else leaves_of m x)"
  by (auto simp: leaves_of_def map_add_def split: option.splits)

lemma leaves_of_example_step:
  assumes "x \<noteq> 0"
  shows "leaves_of (example_step m r) x =
     leaves_of m x + (if ExampleId r = Some x \<and> truthy (VocabId r) then 1 else 0)"
proof (cases "ExampleId r")
  case None
  then show ?thesis by (simp add: example_step_def)
next
  case (Some k)
  show ?thesis
  proof (cases "k = 0")
    case True
    with Some assms show ?thesis by (simp add: example_step_def)
  next
    case False
    show ?thesis
    proof (cases "map_of m k")
      case None
      let ?m1 = "m @ [(k, example_of_row r)]"
      have st: "example_step m r = (if truthy (VocabId r) then push_vocab r k ?m1 else ?m1)"
        using \<open>ExampleId r = Some k\<close> False None by (simp add: example_step_def)
      have l1: "leaves_of ?m1 x = (if x = k then 0 else leaves_of m x)"
        using leaves_of_append_new [OF None, of "example_of_row r" x]
        by (simp add: example_of_row_def)
      have n: "map_of ?m1 k \<noteq> None"
        by (simp add: map_add_def split: option.splits)
      have z: "leaves_of m k = 0" using None by (simp add: leaves_of_def)
      show ?thesis
        unfolding st using l1 n z \<open>ExampleId r = Some k\<close>
        by (auto simp: leaves_of_push_vocab simp del: map_of_append)
    next
      case (Some e)
      with \<open>ExampleId r = Some k\<close> False show ?thesis
        by (auto simp: example_step_def leaves_of_push_vocab)
    qed
  qed
qed

lemma leaf_rows_Cons:
  "leaf_rows x (r # rows) =
     (if ExampleId r = Some x \<and> truthy (VocabId r) then 1 else 0) + leaf_rows x rows"
  by (simp add: leaf_rows_def)

lemma leaves_of_foldl_example_step:
  "x \<noteq> 0 \<Longrightarrow> leaves_of (foldl example_step m rows) x = leaves_of m x + leaf_rows x rows"
proof (induction rows arbitrary: m)
  case Nil
  show ?case by (simp add: leaf_rows_def)
next
  case (Cons r rows)
  from Cons.IH [OF Cons.prems, of "example_step m r"] show ?case
    by (simp add: leaves_of_example_step [OF Cons.prems] leaf_rows_Cons)
qed

text \<open>One node per example identifier of the rows, with one leaf per row that carries a vocab identifier.\<close>

lemma example_map_of_rows:
  "distinct (map fst (foldl example_step [] rows))"
  "set (map fst (foldl example_step [] rows)) = example_ids rows"
  "(k, e) \<in> set (foldl example_step [] rows) \<Longrightarrow> length (ed_vocab e) = leaf_rows k rows"
proof -
  show d: "distinct (map fst (foldl example_step [] rows))"
    by (rule distinct_foldl_example_step) simp
  show s: "set (map fst (foldl example_step [] rows)) = example_ids rows"
    using keys_foldl_example_step [of "[]" rows] by simp
  assume m: "(k, e) \<in> set (foldl example_step [] rows)"
  then have "k \<in> example_ids rows" using s by force
  then have k: "k \<noteq> 0" by (simp add: example_ids_def)
  have "map_of (foldl example_step [] rows) k = Some e"
    using d m by simp
  then have "length (ed_vocab e) = leaves_of (foldl example_step [] rows) k"
    by (simp add: leaves_of_def)
  also have "\<dots> = leaves_of [] k + leaf_rows k rows"
    by (rule leaves_of_foldl_example_step [OF k])
  also have "\<dots> = leaf_rows k rows"
    by (simp add: leaves_of_def)
  finally show "length (ed_vocab e) = leaf_rows k rows" .
qed

subsection \<open>The roots of \<open>GET /api/grammar\<close>\<close>

lemma push_vocab_absent: "k \<notin> fst ` set m \<Longrightarrow> push_vocab r k m = m"
  by (induction m) (auto simp: push_vocab_def)

lemma push_vocab_Cons:
  "push_vocab r k (p # m) =
     (if fst p = k then (fst p, (snd p)\<lparr>ed_vocab := ed_vocab (snd p) @ [vocab_of_row r]\<rparr>)
      else p) # push_vocab r k m"
  by (cases p) (simp add: push_vocab_def)

lemma push_vocab_node_to_node:
  "distinct (map fst m) \<Longrightarrow>
   push_vocab_node r k (map to_node m) = map to_node (push_vocab r k m)"
proof (induction m)
  case Nil
  show ?case by (simp add: push_vocab_def)
next
  case (Cons p m)
  show ?case
  proof (cases "fst p = k")
    case True
    with Cons.prems have "k \<notin> fst ` set m" by auto
    then have "push_vocab r k m = m" by (rule push_vocab_absent)
    with True show ?thesis
      by (simp add: push_vocab_Cons to_node_def)
  next
    case False
    with Cons show ?thesis
      by (simp add: push_vocab_Cons to_node_def)
  qed
qed

lemma find_to_node:
  "find (\<lambda>ex. en_id ex = k) (map to_node m) = None \<longleftrightarrow> map_of m k = None"
  by (induction m) (auto simp: to_node_def)

lemma example_node_of_row_to_node:
  "example_node_of_row k r = to_node (k, example_of_row r)"
  by (simp add: example_node_of_row_def to_node_def example_of_row_def)

text \<open>
  The loop of \<open>GET /api/grammar\<close> on the examples of one root does what the loop of
  \<open>GET /api/grammar/:id\<close> does on its example map.
\<close>

lemma examples_step_to_node:
  assumes "distinct (map fst m)"
  shows "examples_step r (map to_node m) = map to_node (example_step m r)"
proof (cases "ExampleId r")
  case None
  then show ?thesis by (simp add: examples_step_def example_step_def)
next
  case (Some k)
  show ?thesis
  proof (cases "k = 0")
    case True
    with Some show ?thesis by (simp add: examples_step_def example_step_def)
  next
    case False
    let ?m1 = "if map_of m k = None then m @ [(k, example_of_row r)] else m"
    have d: "distinct (map fst ?m1)"
      using assms by (auto simp: map_of_eq_None_iff)
    have e: "(if find (\<lambda>ex. en_id ex = k) (map to_node m) = None
              then map to_node m @ [example_node_of_row k r] else map to_node m)
           = map to_node ?m1"
      by (simp add: find_to_node example_node_of_row_to_node)
    show ?thesis
      using Some False
      by (simp add: examples_step_def example_step_def e Let_def
            push_vocab_node_to_node [OF d] del: find_to_node)
  qed
qed

lemma foldl_examples_step_to_node:
  "distinct (map fst m) \<Longrightarrow>
   foldl (\<lambda>exs r. examples_step r exs) (map to_node m) rows
     = map to_node (foldl example_step m rows)"
proof (induction rows arbitrary: m)
  case Nil
  show ?case by simp
next
  case (Cons r rows)
  have "distinct (map fst (example_step m r))"
    using Cons.prems by (rule distinct_example_step)
  from Cons.IH [OF this] show ?case
    by (simp add: examples_step_to_node [OF Cons.prems])
qed

lemma in_update_key:
  "(k, x') \<in> set (update_key a f m) \<longleftrightarrow>
     (\<exists>x. (k, x) \<in> set m \<and> x' = (if k = a then f x else x))"
  by (force simp: update_key_def split: if_splits)

text \<open>Each root of the grammar map holds the examples of its own rows.\<close>

lemma grammar_map_of_rows:
  "distinct (map fst (foldl grammar_step [] rows))
   \<and> set (map fst (foldl grammar_step [] rows)) = GrammarId ` set rows
   \<and> (\<forall>p\<in>set (foldl grammar_step [] rows).
         gn_examples (snd p)
           = map to_node (foldl example_step [] (filter (\<lambda>r. GrammarId r = fst p) rows)))"
proof (induction rows rule: rev_induct)
  case Nil
  show ?case by simp
next
  case (snoc r rows)
  let ?M = "foldl grammar_step [] rows"
  let ?k = "GrammarId r"
  let ?m1 = "if map_of ?M ?k = None then ?M @ [(?k, grammar_node_of_row r)] else ?M"
  let ?f = "\<lambda>g. g\<lparr>gn_examples := examples_step r (gn_examples g)\<rparr>"
  from snoc have d: "distinct (map fst ?M)"
    and s: "set (map fst ?M) = GrammarId ` set rows"
    and ex: "\<And>p. p \<in> set ?M \<Longrightarrow> gn_examples (snd p)
           = map to_node (foldl example_step [] (filter (\<lambda>r. GrammarId r = fst p) rows))"
    by blast+
  have st: "foldl grammar_step [] (rows @ [r]) = update_key ?k ?f ?m1"
    by (simp add: grammar_step_def)
  have d1: "distinct (map fst ?m1)"
    using d by (auto simp: map_of_eq_None_iff)
  have s1: "set (map fst ?m1) = GrammarId ` set (rows @ [r])"
    using s by (auto simp: map_of_eq_None_iff)
  have ex1: "gn_examples (snd p)
           = map to_node (foldl example_step [] (filter (\<lambda>r. GrammarId r = fst p) rows))"
    if "p \<in> set ?m1" for p
  proof (cases "p \<in> set ?M")
    case True
    then show ?thesis by (rule ex)
  next
    case False
    with that have p: "p = (?k, grammar_node_of_row r)" and n: "map_of ?M ?k = None"
      by (auto split: if_splits)
    from n have "?k \<notin> GrammarId ` set rows"
      using s by (simp add: map_of_eq_None_iff)
    then have "\<forall>r'\<in>set rows. GrammarId r' \<noteq> ?k"
      by (metis imageI)
    then have "filter (\<lambda>r'. GrammarId r' = ?k) rows = []"
      by (simp add: filter_empty_conv)
    then show ?thesis
      by (simp add: p grammar_node_of_row_def)
  qed
  have "gn_examples (snd p)
           = map to_node (foldl example_step [] (filter (\<lambda>r'. GrammarId r' = fst p) (rows @ [r])))"
    if "p \<in> set (update_key ?k ?f ?m1)" for p
  proof -
    obtain k x' where p: "p = (k, x')" by (cases p)
    from that have "(k, x') \<in> set (update_key ?k ?f ?m1)"
      by (simp only: p)
    then have "\<exists>x. (k, x) \<in> set ?m1 \<and> x' = (if k = ?k then ?f x else x)"
      by (simp only: in_update_key)
    then obtain x where x: "(k, x) \<in> set ?m1" and x': "x' = (if k = ?k then ?f x else x)"
      by blast
    have old: "gn_examples x
        = map to_node (foldl example_step [] (filter (\<lambda>r'. GrammarId r' = k) rows))"
      using ex1 [OF x] by simp
    show ?thesis
    proof (cases "k = ?k")
      case False
      with x' old p show ?thesis by simp
    next
      case True
      have dd: "distinct (map fst (foldl example_step [] (filter (\<lambda>r'. GrammarId r' = k) rows)))"
        by (rule distinct_foldl_example_step) simp
      have "gn_examples x' = examples_step r (gn_examples x)"
        using x' True by simp
      also have "\<dots> = map to_node
          (example_step (foldl example_step [] (filter (\<lambda>r'. GrammarId r' = k) rows)) r)"
        unfolding old by (rule examples_step_to_node [OF dd])
      finally show ?thesis
        using True p by simp
    qed
  qed
  then show ?case
    unfolding st using d1 s1 by simp
qed

subsection \<open>The rows of the join\<close>

lemma length_filter_concat:
  "length (filter P (concat xss)) = sum_list (map (\<lambda>xs. length (filter P xs)) xss)"
  by (induction xss) simp_all

lemma sum_list_single:
  assumes "distinct (map key xs)" and "x \<in> set xs"
  shows "sum_list (map (\<lambda>y. if key y = key x then c y else (0::nat)) xs) = c x"
  using assms
proof (induction xs)
  case Nil
  then show ?case by simp
next
  case (Cons a xs)
  show ?case
  proof (cases "a = x")
    case True
    from Cons.prems(1) True have "key x \<notin> key ` set xs" by simp
    then have "key y \<noteq> key x" if "y \<in> set xs" for y
      using that by (metis imageI)
    then have "sum_list (map (\<lambda>y. if key y = key x then c y else 0) xs) = 0"
      by simp
    with True show ?thesis by simp
  next
    case False
    with Cons.prems have x: "x \<in> set xs" and d: "distinct (map key xs)"
      by simp_all
    from Cons.prems(1) have "key a \<notin> key ` set xs" by simp
    with x have "key a \<noteq> key x" by (metis imageI)
    with Cons.IH [OF d x] show ?thesis by simp
  qed
qed

lemma sum_list_none:
  "(\<And>y. y \<in> set xs \<Longrightarrow> key y \<noteq> k) \<Longrightarrow>
   sum_list (map (\<lambda>y. if key y = k then c y else (0::nat)) xs) = 0"
  by simp

lemma join_vocabulary_ids:
  "r \<in> set (join_vocabulary s g e) \<Longrightarrow>
   GrammarId r = gp_GrammarId g \<and> ExampleId r = Some (ex_ExampleId e)"
  by (auto simp: join_vocabulary_def join_row_def split: list.splits)

lemma join_vocabulary_not_empty: "join_vocabulary s g e \<noteq> []"
  by (simp add: join_vocabulary_def split: list.splits)

lemma join_examples_grammar:
  "r \<in> set (join_examples s g) \<Longrightarrow> GrammarId r = gp_GrammarId g"
  by (auto simp: join_examples_def join_row_def dest: join_vocabulary_ids split: list.splits)

lemma join_examples_not_empty: "join_examples s g \<noteq> []"
  by (auto simp: join_examples_def join_vocabulary_not_empty split: list.splits)

lemma join_examples_cases:
  "join_examples s g =
     (if filter (\<lambda>e. ex_GrammarId e = gp_GrammarId g) (Examples s) = []
      then [join_row g None None]
      else concat (map (join_vocabulary s g)
             (filter (\<lambda>e. ex_GrammarId e = gp_GrammarId g) (Examples s))))"
  by (simp add: join_examples_def split: list.splits)

lemma join_examples_example_ids:
  "Some i \<in> ExampleId ` set (join_examples s g) \<longleftrightarrow>
     (\<exists>e\<in>set (Examples s). ex_GrammarId e = gp_GrammarId g \<and> ex_ExampleId e = i)"
proof
  assume "Some i \<in> ExampleId ` set (join_examples s g)"
  then obtain r where r: "r \<in> set (join_examples s g)" "ExampleId r = Some i"
    by force
  show "\<exists>e\<in>set (Examples s). ex_GrammarId e = gp_GrammarId g \<and> ex_ExampleId e = i"
  proof (cases "filter (\<lambda>e. ex_GrammarId e = gp_GrammarId g) (Examples s) = []")
    case True
    with r show ?thesis by (simp add: join_examples_cases join_row_def)
  next
    case False
    with r obtain e where "e \<in> set (Examples s)" "ex_GrammarId e = gp_GrammarId g"
      "r \<in> set (join_vocabulary s g e)"
      by (auto simp: join_examples_cases)
    note e = this
    from join_vocabulary_ids [OF e(3)] r(2) have "ex_ExampleId e = i" by simp
    with e(1,2) show ?thesis by blast
  qed
next
  assume "\<exists>e\<in>set (Examples s). ex_GrammarId e = gp_GrammarId g \<and> ex_ExampleId e = i"
  then obtain e where e: "e \<in> set (Examples s)" "ex_GrammarId e = gp_GrammarId g"
    "ex_ExampleId e = i" by blast
  then have ne: "filter (\<lambda>e. ex_GrammarId e = gp_GrammarId g) (Examples s) \<noteq> []"
    by (auto simp: filter_empty_conv)
  obtain r where r: "r \<in> set (join_vocabulary s g e)"
    using join_vocabulary_not_empty [of s g e] by (cases "join_vocabulary s g e") auto
  then have "ExampleId r = Some i" using e(3) by (auto dest: join_vocabulary_ids)
  moreover have "r \<in> set (join_examples s g)"
    using r e ne by (auto simp: join_examples_cases)
  ultimately show "Some i \<in> ExampleId ` set (join_examples s g)"
    by force
qed

lemma leaf_rows_join_vocabulary:
  assumes "\<forall>v\<in>set (Vocabulary s). vo_VocabId v \<noteq> 0"
  shows "leaf_rows i (join_vocabulary s g e) =
     (if ex_ExampleId e = i
      then length (filter (\<lambda>v. vo_ExampleId v = i) (Vocabulary s)) else 0)"
proof (cases "ex_ExampleId e = i")
  case False
  then have "\<forall>r\<in>set (join_vocabulary s g e). ExampleId r \<noteq> Some i"
    by (auto dest: join_vocabulary_ids)
  with False show ?thesis by (simp add: leaf_rows_def filter_empty_conv)
next
  case True
  let ?vs = "filter (\<lambda>v. vo_ExampleId v = ex_ExampleId e) (Vocabulary s)"
  have nz: "\<forall>v\<in>set ?vs. vo_VocabId v \<noteq> 0" using assms by simp
  have "leaf_rows i (join_vocabulary s g e) = length ?vs"
  proof (cases ?vs)
    case Nil
    then show ?thesis
      by (simp add: leaf_rows_def join_vocabulary_def join_row_def truthy_def)
  next
    case (Cons v vs)
    have "filter (\<lambda>r. ExampleId r = Some i \<and> truthy (VocabId r))
            (map (\<lambda>v. join_row g (Some e) (Some v)) ?vs)
          = map (\<lambda>v. join_row g (Some e) (Some v)) ?vs"
      using nz True by (auto simp: filter_id_conv join_row_def truthy_def simp del: set_filter)
    then have "leaf_rows i (map (\<lambda>v. join_row g (Some e) (Some v)) ?vs) = length ?vs"
      by (simp add: leaf_rows_def del: filter_map)
    then show ?thesis
      using Cons by (simp add: join_vocabulary_def)
  qed
  with True show ?thesis by simp
qed

lemma distinct_map_eq:
  "distinct (map f xs) \<Longrightarrow> x \<in> set xs \<Longrightarrow> y \<in> set xs \<Longrightarrow> f x = f y \<Longrightarrow> x = y"
  by (meson distinct_map inj_onD)

lemma leaf_rows_join_examples:
  assumes nz: "\<forall>v\<in>set (Vocabulary s). vo_VocabId v \<noteq> 0"
    and d: "distinct (map ex_ExampleId (Examples s))"
    and e: "e \<in> set (Examples s)"
  shows "leaf_rows (ex_ExampleId e) (join_examples s g) =
     (if ex_GrammarId e = gp_GrammarId g
      then length (filter (\<lambda>v. vo_ExampleId v = ex_ExampleId e) (Vocabulary s)) else 0)"
proof -
  let ?i = "ex_ExampleId e"
  let ?es = "filter (\<lambda>e. ex_GrammarId e = gp_GrammarId g) (Examples s)"
  let ?c = "\<lambda>e'::example_row. length (filter (\<lambda>v. vo_ExampleId v = ?i) (Vocabulary s))"
  have des: "distinct (map ex_ExampleId ?es)"
    using d by (rule distinct_map_filter)
  have cat: "leaf_rows ?i (concat (map (join_vocabulary s g) ?es))
      = sum_list (map (\<lambda>e'. if ex_ExampleId e' = ?i then ?c e' else 0) ?es)"
    by (simp add: leaf_rows_def length_filter_concat comp_def
          leaf_rows_join_vocabulary [OF nz, unfolded leaf_rows_def])
  show ?thesis
  proof (cases "ex_GrammarId e = gp_GrammarId g")
    case True
    then have m: "e \<in> set ?es" using e by simp
    then have ne: "?es \<noteq> []" by (metis empty_iff empty_set)
    have "sum_list (map (\<lambda>e'. if ex_ExampleId e' = ?i then ?c e' else 0) ?es) = ?c e"
      using des m by (rule sum_list_single)
    with True ne cat show ?thesis
      by (simp add: join_examples_cases)
  next
    case False
    have other: "ex_ExampleId e' \<noteq> ?i" if "e' \<in> set ?es" for e'
    proof
      assume "ex_ExampleId e' = ?i"
      with d e that have "e' = e" by (auto dest: distinct_map_eq)
      with that False show False by simp
    qed
    have "leaf_rows ?i (join_examples s g) = 0"
    proof (cases "?es = []")
      case True
      then show ?thesis
        by (simp add: join_examples_cases leaf_rows_def join_row_def)
    next
      case ne: False
      have "sum_list (map (\<lambda>e'. if ex_ExampleId e' = ?i then ?c e' else 0) ?es) = 0"
        using other by (rule sum_list_none)
      with ne cat show ?thesis
        by (simp add: join_examples_cases)
    qed
    with False show ?thesis by simp
  qed
qed

lemma all_grammar_query_joined: "all_grammar_query s = sort_key (\<lambda>r. (GrammarId r, ExampleId r, VocabId r)) (joined s)"
  by (simp add: all_grammar_query_def joined_def)

lemma filter_join_examples:
  "filter (\<lambda>r. GrammarId r = k) (join_examples s g) =
     (if gp_GrammarId g = k then join_examples s g else [])"
  by (auto simp: filter_id_conv filter_empty_conv dest: join_examples_grammar)

lemma concat_map_if:
  "concat (map (\<lambda>x. if P x then f x else []) xs) = concat (map f (filter P xs))"
  by (induction xs) simp_all

lemma grammar_by_id_query_joined:
  "grammar_by_id_query gid s =
     sort_key (\<lambda>r. (ExampleId r, VocabId r)) (filter (\<lambda>r. GrammarId r = gid) (joined s))"
  by (simp add: grammar_by_id_query_def joined_def filter_concat comp_def
        filter_join_examples concat_map_if)

lemma example_ids_joined:
  assumes nz: "\<forall>e\<in>set (Examples s). ex_ExampleId e \<noteq> 0"
    and k: "k \<in> gp_GrammarId ` set (GrammarPoints s)"
  shows "example_ids (filter (\<lambda>r. GrammarId r = k) (joined s))
       = {ex_ExampleId e | e. e \<in> set (Examples s) \<and> ex_GrammarId e = k}"
proof -
  have "Some i \<in> ExampleId ` set (filter (\<lambda>r. GrammarId r = k) (joined s)) \<longleftrightarrow>
      (\<exists>e\<in>set (Examples s). ex_GrammarId e = k \<and> ex_ExampleId e = i)" for i
  proof
    assume "Some i \<in> ExampleId ` set (filter (\<lambda>r. GrammarId r = k) (joined s))"
    then obtain r g where r: "ExampleId r = Some i" "GrammarId r = k"
      and g: "g \<in> set (GrammarPoints s)" "r \<in> set (join_examples s g)"
      by (force simp: joined_def)
    from join_examples_grammar [OF g(2)] r(2) have gk: "gp_GrammarId g = k" by simp
    have "Some i \<in> ExampleId ` set (join_examples s g)"
      using g(2) r(1) by (metis imageI)
    then show "\<exists>e\<in>set (Examples s). ex_GrammarId e = k \<and> ex_ExampleId e = i"
      by (simp add: join_examples_example_ids gk)
  next
    assume "\<exists>e\<in>set (Examples s). ex_GrammarId e = k \<and> ex_ExampleId e = i"
    moreover from k obtain g where g: "g \<in> set (GrammarPoints s)" "gp_GrammarId g = k"
      by force
    ultimately have "Some i \<in> ExampleId ` set (join_examples s g)"
      by (simp add: join_examples_example_ids)
    then obtain r where r: "r \<in> set (join_examples s g)" "ExampleId r = Some i"
      by force
    with join_examples_grammar [OF r(1)] g have "r \<in> set (filter (\<lambda>r. GrammarId r = k) (joined s))"
      by (auto simp: joined_def)
    with r(2) show "Some i \<in> ExampleId ` set (filter (\<lambda>r. GrammarId r = k) (joined s))"
      by (metis imageI)
  qed
  then show ?thesis
    using nz by (auto simp: example_ids_def)
qed

lemma leaf_rows_joined:
  assumes nz: "\<forall>v\<in>set (Vocabulary s). vo_VocabId v \<noteq> 0"
    and de: "distinct (map ex_ExampleId (Examples s))"
    and dg: "distinct (map gp_GrammarId (GrammarPoints s))"
    and e: "e \<in> set (Examples s)"
    and g: "g \<in> set (GrammarPoints s)" "gp_GrammarId g = ex_GrammarId e"
  shows "leaf_rows (ex_ExampleId e) (filter (\<lambda>r. GrammarId r = ex_GrammarId e) (joined s))
       = length (filter (\<lambda>v. vo_ExampleId v = ex_ExampleId e) (Vocabulary s))"
proof -
  let ?i = "ex_ExampleId e" and ?k = "ex_GrammarId e"
  have "leaf_rows ?i (filter (\<lambda>r. GrammarId r = ?k) (joined s))
      = sum_list (map (\<lambda>g'. leaf_rows ?i (filter (\<lambda>r. GrammarId r = ?k) (join_examples s g')))
          (GrammarPoints s))"
    by (simp add: leaf_rows_def joined_def filter_concat length_concat comp_def
          del: filter_filter)
  also have "\<dots> = sum_list (map (\<lambda>g'. if gp_GrammarId g' = gp_GrammarId g
                       then leaf_rows ?i (join_examples s g') else 0) (GrammarPoints s))"
  proof -
    have "leaf_rows ?i (filter (\<lambda>r. GrammarId r = ?k) (join_examples s g'))
        = (if gp_GrammarId g' = gp_GrammarId g then leaf_rows ?i (join_examples s g') else 0)"
      for g'
      by (simp add: filter_join_examples g(2) leaf_rows_def)
    then show ?thesis by (simp only:)
  qed
  also have "\<dots> = leaf_rows ?i (join_examples s g)"
    using dg g(1) by (rule sum_list_single)
  also have "\<dots> = length (filter (\<lambda>v. vo_ExampleId v = ?i) (Vocabulary s))"
    using leaf_rows_join_examples [OF nz de e, of g] g(2) by simp
  finally show ?thesis .
qed

lemma leaf_rows_sort_key [simp]: "leaf_rows i (sort_key f rows) = leaf_rows i rows"
  by (simp add: leaf_rows_def filter_sort)

lemma example_ids_sort_key [simp]: "example_ids (sort_key f rows) = example_ids rows"
  by (simp add: example_ids_def)

lemma grammar_ids_joined: "GrammarId ` set (joined s) = gp_GrammarId ` set (GrammarPoints s)"
proof (intro set_eqI iffI)
  fix k assume "k \<in> GrammarId ` set (joined s)"
  then obtain r g where "g \<in> set (GrammarPoints s)" "r \<in> set (join_examples s g)" "k = GrammarId r"
    by (force simp: joined_def)
  then show "k \<in> gp_GrammarId ` set (GrammarPoints s)"
    by (metis join_examples_grammar imageI)
next
  fix k assume "k \<in> gp_GrammarId ` set (GrammarPoints s)"
  then obtain g where g: "g \<in> set (GrammarPoints s)" "k = gp_GrammarId g" by force
  obtain r where r: "r \<in> set (join_examples s g)"
    using join_examples_not_empty [of s g] by (cases "join_examples s g") auto
  then have "r \<in> set (joined s)" using g(1) by (auto simp: joined_def)
  moreover have "GrammarId r = k" using join_examples_grammar [OF r] g(2) by simp
  ultimately show "k \<in> GrammarId ` set (joined s)" by (metis imageI)
qed

text \<open>
  The example map of the rows of one root, in whatever order the query sorts them: one
  entry per example of the root, with one leaf per vocabulary row of the example.
\<close>

lemma example_map_of_root:
  fixes f :: "row \<Rightarrow> 'k::linorder"
  assumes wf: "store_wf s" and k: "k \<in> gp_GrammarId ` set (GrammarPoints s)"
  defines "m \<equiv> foldl example_step [] (sort_key f (filter (\<lambda>r. GrammarId r = k) (joined s)))"
  shows "distinct (map fst m)"
    and "set (map fst m) = {ex_ExampleId e | e. e \<in> set (Examples s) \<and> ex_GrammarId e = k}"
    and "\<forall>p\<in>set m. length (ed_vocab (snd p))
           = length (filter (\<lambda>v. vo_ExampleId v = fst p) (Vocabulary s))"
proof -
  let ?rows = "sort_key f (filter (\<lambda>r. GrammarId r = k) (joined s))"
  have nze: "\<forall>e\<in>set (Examples s). ex_ExampleId e \<noteq> 0"
    and nzv: "\<forall>v\<in>set (Vocabulary s). vo_VocabId v \<noteq> 0"
    and de: "distinct (map ex_ExampleId (Examples s))"
    and dg: "distinct (map gp_GrammarId (GrammarPoints s))"
    using wf by (auto simp: store_wf_def keys_ok_def)
  show "distinct (map fst m)"
    unfolding m_def by (rule example_map_of_rows(1))
  have ids: "set (map fst m) = example_ids (filter (\<lambda>r. GrammarId r = k) (joined s))"
    unfolding m_def example_map_of_rows(2) by simp
  show s: "set (map fst m) = {ex_ExampleId e | e. e \<in> set (Examples s) \<and> ex_GrammarId e = k}"
    unfolding ids using nze k by (rule example_ids_joined)
  show "\<forall>p\<in>set m. length (ed_vocab (snd p))
           = length (filter (\<lambda>v. vo_ExampleId v = fst p) (Vocabulary s))"
  proof
    fix p assume p: "p \<in> set m"
    obtain i e' where pe: "p = (i, e')" by (cases p)
    with p have "i \<in> set (map fst m)" by force
    then obtain e where e: "e \<in> set (Examples s)" "ex_GrammarId e = k" "ex_ExampleId e = i"
      unfolding s by blast
    from k e(2) obtain g where g: "g \<in> set (GrammarPoints s)" "gp_GrammarId g = ex_GrammarId e"
      by force
    have "length (ed_vocab e') = leaf_rows i ?rows"
      using p pe unfolding m_def by (intro example_map_of_rows(3)) simp
    also have "\<dots> = leaf_rows (ex_ExampleId e) (filter (\<lambda>r. GrammarId r = ex_GrammarId e) (joined s))"
      using e by simp
    also have "\<dots> = length (filter (\<lambda>v. vo_ExampleId v = ex_ExampleId e) (Vocabulary s))"
      using nzv de dg e(1) g by (rule leaf_rows_joined)
    finally show "length (ed_vocab (snd p))
           = length (filter (\<lambda>v. vo_ExampleId v = fst p) (Vocabulary s))"
      using pe e(3) by simp
  qed
qed

lemma all_grammar_response_eq: "all_grammar_response rows = Json (transform_all rows)"
  by (cases rows) (simp_all add: all_grammar_response_def transform_all_def Object_values_def)

lemma map_en_id_to_node: "map en_id (map to_node m) = map fst m"
  by (simp add: to_node_def comp_def)

text \<open>
  Claim C3. For the record set the left join returns on a store the writers produce
  (whose generated keys are distinct and positive), however often the join repeats a
  parent: \<open>GET /api/grammar\<close> answers exactly one root node per grammar point, each root
  holds exactly one example node per example of that grammar point, and each example
  node holds as many vocab entries as the example has vocabulary rows (which have
  distinct keys); \<open>GET /api/grammar/:id\<close> answers, for an existing root, the values of
  an example map with exactly one entry per example of the root and the same leaf
  counts.
\<close>

theorem one_node_per_identifier:
  assumes wf: "store_wf s"
  shows "(\<exists>out. get_all_grammar s = Json out
      \<and> distinct (map gn_id out)
      \<and> set (map gn_id out) = set (map gp_GrammarId (GrammarPoints s))
      \<and> (\<forall>g\<in>set out.
            distinct (map en_id (gn_examples g))
          \<and> set (map en_id (gn_examples g))
              = {ex_ExampleId e | e. e \<in> set (Examples s) \<and> ex_GrammarId e = gn_id g}
          \<and> (\<forall>x\<in>set (gn_examples g).
                length (en_vocab x)
                  = length (filter (\<lambda>v. vo_ExampleId v = en_id x) (Vocabulary s)))))
    \<and> (gid \<in> set (map gp_GrammarId (GrammarPoints s)) \<longrightarrow>
         (\<exists>d m. get_grammar gid s = Json d \<and> gd_examples d = map snd m
            \<and> distinct (map fst m)
            \<and> set (map fst m)
                = {ex_ExampleId e | e. e \<in> set (Examples s) \<and> ex_GrammarId e = gid}
            \<and> (\<forall>p\<in>set m. length (ed_vocab (snd p))
                  = length (filter (\<lambda>v. vo_ExampleId v = fst p) (Vocabulary s)))))"
proof (intro conjI impI)
  let ?f = "\<lambda>r. (GrammarId r, ExampleId r, VocabId r)"
  let ?rows = "all_grammar_query s"
  let ?M = "foldl grammar_step [] ?rows"
  let ?out = "transform_all ?rows"
  have rows: "?rows = sort_key ?f (joined s)"
    by (rule all_grammar_query_joined)
  from grammar_map_of_rows [of ?rows]
  have dM: "distinct (map fst ?M)"
    and sM: "set (map fst ?M) = GrammarId ` set ?rows"
    and exM: "\<And>p. p \<in> set ?M \<Longrightarrow> gn_examples (snd p)
           = map to_node (foldl example_step [] (filter (\<lambda>r. GrammarId r = fst p) ?rows))"
    by blast+
  have kM: "keyed gn_id ?M"
    by (rule keyed_foldl_grammar_step) (simp add: keyed_def)
  have ids: "map gn_id ?out = sort (filter is_array_index (map fst ?M))
       @ filter (\<lambda>k. \<not> is_array_index k) (map fst ?M)"
    unfolding transform_all_def using kM by (rule keyed_Object_values)
  have keys: "set (map fst ?M) = gp_GrammarId ` set (GrammarPoints s)"
    using sM by (simp add: rows grammar_ids_joined)
  have a: "distinct (map gn_id ?out)"
    unfolding ids using dM by (auto simp: distinct_filter)
  have b: "set (map gn_id ?out) = set (map gp_GrammarId (GrammarPoints s))"
    unfolding ids using keys by auto
  have c: "distinct (map en_id (gn_examples g))
          \<and> set (map en_id (gn_examples g))
              = {ex_ExampleId e | e. e \<in> set (Examples s) \<and> ex_GrammarId e = gn_id g}
          \<and> (\<forall>x\<in>set (gn_examples g).
                length (en_vocab x)
                  = length (filter (\<lambda>v. vo_ExampleId v = en_id x) (Vocabulary s)))"
    if g: "g \<in> set ?out" for g
  proof -
    from g obtain p where p: "p \<in> set ?M" "g = snd p"
      by (auto simp: transform_all_def)
    with kM have k: "gn_id g = fst p" by (simp add: keyed_def)
    let ?k = "gn_id g"
    have "?k \<in> set (map fst ?M)" using p(1) k by force
    then have kin: "?k \<in> gp_GrammarId ` set (GrammarPoints s)"
      unfolding keys .
    let ?m = "foldl example_step [] (sort_key ?f (filter (\<lambda>r. GrammarId r = ?k) (joined s)))"
    have ex: "gn_examples g = map to_node ?m"
      using exM [OF p(1)] p(2) k by (simp add: rows filter_sort)
    note root = example_map_of_root [OF wf kin, of ?f]
    have "\<forall>x\<in>set (gn_examples g).
                length (en_vocab x)
                  = length (filter (\<lambda>v. vo_ExampleId v = en_id x) (Vocabulary s))"
      unfolding ex using root(3) by (simp add: to_node_def)
    moreover have e1: "map en_id (gn_examples g) = map fst ?m"
      unfolding ex by (rule map_en_id_to_node)
    moreover have "distinct (map en_id (gn_examples g))"
      unfolding e1 by (rule root(1))
    moreover have "set (map en_id (gn_examples g))
              = {ex_ExampleId e | e. e \<in> set (Examples s) \<and> ex_GrammarId e = gn_id g}"
      unfolding e1 by (rule root(2))
    ultimately show ?thesis by blast
  qed
  show "\<exists>out. get_all_grammar s = Json out
      \<and> distinct (map gn_id out)
      \<and> set (map gn_id out) = set (map gp_GrammarId (GrammarPoints s))
      \<and> (\<forall>g\<in>set out.
            distinct (map en_id (gn_examples g))
          \<and> set (map en_id (gn_examples g))
              = {ex_ExampleId e | e. e \<in> set (Examples s) \<and> ex_GrammarId e = gn_id g}
          \<and> (\<forall>x\<in>set (gn_examples g).
                length (en_vocab x)
                  = length (filter (\<lambda>v. vo_ExampleId v = en_id x) (Vocabulary s))))"
    using a b c by (intro exI [of _ ?out]) (simp add: get_all_grammar_def all_grammar_response_eq)
next
  assume "gid \<in> set (map gp_GrammarId (GrammarPoints s))"
  then have kin: "gid \<in> gp_GrammarId ` set (GrammarPoints s)" by simp
  let ?f = "\<lambda>r. (ExampleId r, VocabId r)"
  let ?rows = "sort_key ?f (filter (\<lambda>r. GrammarId r = gid) (joined s))"
  let ?m = "foldl example_step [] ?rows"
  note root = example_map_of_root [OF wf kin, of ?f]
  have "gid \<in> GrammarId ` set (joined s)"
    using kin by (simp add: grammar_ids_joined)
  then have "filter (\<lambda>r. GrammarId r = gid) (joined s) \<noteq> []"
    by (auto simp: filter_empty_conv)
  then have "?rows \<noteq> []"
    by (metis length_sort length_0_conv)
  then obtain r rs where r: "?rows = r # rs" by (cases ?rows) auto
  have "get_grammar gid s = Json (transform_rows r ?rows)"
    by (simp add: get_grammar_def grammar_by_id_query_joined grammar_response_def r)
  moreover have "gd_examples (transform_rows r ?rows) = map snd ?m"
    by (simp add: transform_rows_def)
  ultimately show "\<exists>d m. get_grammar gid s = Json d \<and> gd_examples d = map snd m
            \<and> distinct (map fst m)
            \<and> set (map fst m)
                = {ex_ExampleId e | e. e \<in> set (Examples s) \<and> ex_GrammarId e = gid}
            \<and> (\<forall>p\<in>set m. length (ed_vocab (snd p))
                  = length (filter (\<lambda>v. vo_ExampleId v = fst p) (Vocabulary s)))"
    using root by blast
qed

theorem one_node_per_identifier_witness:
  "store_wf fanout_store
   \<and> 1 \<in> set (map gp_GrammarId (GrammarPoints fanout_store))
   \<and> length (all_grammar_query fanout_store) = 3
   \<and> (\<exists>out. get_all_grammar fanout_store = Json out \<and> distinct (map gn_id out)
          \<and> set (map gn_id out) = {1})
   \<and> (\<exists>d (m::example_map). get_grammar 1 fanout_store = Json d \<and> gd_examples d = map snd m
          \<and> distinct (map fst m) \<and> set (map fst m) = {10, 11})"
proof -
  have wf: "store_wf fanout_store"
    by (simp add: store_wf_def fanout_store_def empty_store_def keys_ok_def refs_ok_def)
  have k: "1 \<in> set (map gp_GrammarId (GrammarPoints fanout_store))"
    and g: "set (map gp_GrammarId (GrammarPoints fanout_store)) = {1}"
    by (simp_all add: fanout_store_def empty_store_def)
  have "{ex_ExampleId e | e. e \<in> set (Examples fanout_store) \<and> ex_GrammarId e = 1}
      = ex_ExampleId ` set (filter (\<lambda>e. ex_GrammarId e = 1) (Examples fanout_store))"
    by auto
  also have "\<dots> = {10, 11}"
    by (simp add: fanout_store_def empty_store_def)
  finally have e: "{ex_ExampleId e | e. e \<in> set (Examples fanout_store) \<and> ex_GrammarId e = 1}
      = {10, 11}" .
  have n: "length (all_grammar_query fanout_store) = 3"
    by (simp add: all_grammar_query_def join_examples_def join_vocabulary_def
          fanout_store_def empty_store_def)
  show ?thesis
    using wf k n one_node_per_identifier [OF wf, of 1] unfolding g e by blast
qed

section \<open>The writers keep the store well formed\<close>

lemma store_wf_empty: "store_wf empty_store"
  by (simp add: store_wf_def empty_store_def keys_ok_def refs_ok_def)

lemma keys_ok_append_fresh:
  assumes "keys_ok ks n" and "0 < n"
  shows "keys_ok (ks @ map (\<lambda>k. n + int k) [0..<l]) (n + int l)"
proof -
  have d: "distinct (map (\<lambda>k. n + int k) [0..<l])"
    by (simp add: distinct_map inj_on_def)
  have lt: "\<forall>k\<in>set ks. 0 < k \<and> k < n" and dk: "distinct ks"
    using assms(1) by (simp_all add: keys_ok_def)
  have new: "\<forall>k\<in>set (map (\<lambda>k. n + int k) [0..<l]). n \<le> k \<and> k < n + int l"
    by auto
  have dis: "set ks \<inter> set (map (\<lambda>k. n + int k) [0..<l]) = {}"
  proof (rule ccontr)
    assume "set ks \<inter> set (map (\<lambda>k. n + int k) [0..<l]) \<noteq> {}"
    then obtain k where "k \<in> set ks" "k \<in> set (map (\<lambda>k. n + int k) [0..<l])" by blast
    with lt new show False by force
  qed
  have all: "\<forall>k\<in>set (ks @ map (\<lambda>k. n + int k) [0..<l]). 0 < k \<and> k < n + int l"
  proof
    fix k assume "k \<in> set (ks @ map (\<lambda>k. n + int k) [0..<l])"
    then consider "k \<in> set ks" | "k \<in> set (map (\<lambda>k. n + int k) [0..<l])" by auto
    then show "0 < k \<and> k < n + int l"
    proof cases
      case 1
      with lt have "0 < k" "k < n" by auto
      then show ?thesis by simp
    next
      case 2
      with new have "n \<le> k" "k < n + int l" by auto
      with assms(2) show ?thesis by simp
    qed
  qed
  show ?thesis
    unfolding keys_ok_def using dk d dis all by simp
qed


lemma refs_ok_mono: "refs_ok rs n \<Longrightarrow> n \<le> n' \<Longrightarrow> refs_ok rs n'"
  unfolding refs_ok_def by (meson less_le_trans)

lemma refs_ok_append: "refs_ok (xs @ ys) n \<longleftrightarrow> refs_ok xs n \<and> refs_ok ys n"
  by (auto simp: refs_ok_def)

lemma ids_from: "map (\<lambda>k. n + int k) [0..<Suc l] = n # map (\<lambda>k. n + 1 + int k) [0..<l]"
  by (simp add: upt_conv_Cons map_Suc_upt [symmetric] del: upt_Suc)

lemma ids_from_add:
  "map (\<lambda>k. n + int k) [0..<a + b]
     = map (\<lambda>k. n + int k) [0..<a] @ map (\<lambda>k. n + int a + int k) [0..<b]"
  by (induction b) (simp_all add: add.assoc)

lemma new_examples_ids:
  "map ex_ExampleId (new_examples g i es) = map (\<lambda>k. i + int k) [0..<length es]"
proof (induction es arbitrary: i)
  case Nil
  show ?case by simp
next
  case (Cons e es)
  show ?case
    by (simp add: Cons.IH ids_from example_row_of_def del: upt_Suc)
qed

lemma new_examples_refs: "map ex_GrammarId (new_examples g i es) = replicate (length es) g"
  by (induction es arbitrary: i) (simp_all add: example_row_of_def)

lemma vocabulary_rows_keys:
  "map vo_VocabId (vocabulary_rows x n vs) = map (\<lambda>k. n + int k) [0..<length vs]"
proof (induction vs arbitrary: n)
  case Nil
  show ?case by simp
next
  case (Cons v vs)
  show ?case
    by (simp add: Cons.IH ids_from del: upt_Suc)
qed

lemma new_vocabulary_ids:
  "map vo_VocabId (new_vocabulary i n es)
     = map (\<lambda>k. n + int k) [0..<sum_list (map (\<lambda>e. length (ed_vocab e)) es)]"
proof (induction es arbitrary: i n)
  case Nil
  show ?case by simp
next
  case (Cons e es)
  show ?case
    by (simp add: Cons.IH vocabulary_rows_keys ids_from_add)
qed

lemma vocabulary_rows_ref: "v \<in> set (vocabulary_rows x n vs) \<Longrightarrow> vo_ExampleId v = x"
  by (induction vs arbitrary: n) auto

lemma new_vocabulary_refs:
  "v \<in> set (new_vocabulary i n es) \<Longrightarrow> i \<le> vo_ExampleId v \<and> vo_ExampleId v < i + int (length es)"
proof (induction es arbitrary: i n)
  case Nil
  then show ?case by simp
next
  case (Cons e es)
  from Cons.prems consider
      (a) "v \<in> set (vocabulary_rows i n (ed_vocab e))"
    | (b) "v \<in> set (new_vocabulary (i + 1) (n + int (length (ed_vocab e))) es)"
    by auto
  then show ?case
  proof cases
    case a
    then show ?thesis by (simp add: vocabulary_rows_ref)
  next
    case b
    from Cons.IH [OF b] show ?thesis by simp
  qed
qed

text \<open>A successful grammar write keeps the store well formed.\<close>

lemma store_wf_written:
  assumes "store_wf s"
  shows "store_wf (written d s)"
proof -
  let ?es = "gd_examples d"
  let ?l = "sum_list (map (\<lambda>e. length (ed_vocab e)) ?es)"
  have g: "keys_ok (map gp_GrammarId (GrammarPoints s) @ [next_GrammarId s]) (next_GrammarId s + 1)"
    using keys_ok_append_fresh [of "map gp_GrammarId (GrammarPoints s)" "next_GrammarId s" 1]
      assms by (simp add: store_wf_def)
  have e: "keys_ok (map ex_ExampleId (Examples s)
              @ map ex_ExampleId (new_examples (next_GrammarId s) (next_ExampleId s) ?es))
            (next_ExampleId s + int (length ?es))"
    unfolding new_examples_ids
    using assms by (intro keys_ok_append_fresh) (simp_all add: store_wf_def)
  have er: "refs_ok (map ex_GrammarId (Examples s)
              @ map ex_GrammarId (new_examples (next_GrammarId s) (next_ExampleId s) ?es))
            (next_GrammarId s + 1)"
    using assms refs_ok_mono [of "map ex_GrammarId (Examples s)" "next_GrammarId s" "next_GrammarId s + 1"]
    by (simp add: refs_ok_append new_examples_refs store_wf_def) (simp add: refs_ok_def)
  have v: "keys_ok (map vo_VocabId (Vocabulary s)
              @ map vo_VocabId (new_vocabulary (next_ExampleId s) (next_VocabId s) ?es))
            (next_VocabId s + int ?l)"
    unfolding new_vocabulary_ids
    using assms by (intro keys_ok_append_fresh) (simp_all add: store_wf_def)
  have "refs_ok (map vo_ExampleId (new_vocabulary (next_ExampleId s) (next_VocabId s) ?es))
          (next_ExampleId s + int (length ?es))"
    using assms by (fastforce simp: refs_ok_def store_wf_def dest: new_vocabulary_refs)
  then have vr: "refs_ok (map vo_ExampleId (Vocabulary s)
              @ map vo_ExampleId (new_vocabulary (next_ExampleId s) (next_VocabId s) ?es))
            (next_ExampleId s + int (length ?es))"
    using assms refs_ok_mono [of "map vo_ExampleId (Vocabulary s)" "next_ExampleId s"
        "next_ExampleId s + int (length ?es)"]
    by (simp add: refs_ok_append store_wf_def)
  show ?thesis
    using assms g e er v vr
    by (simp add: store_wf_def written_def grammar_row_of_def)
qed

lemma new_questions_ids:
  "map q_question_id (new_questions b i qs) = map (\<lambda>k. i + int k) [0..<length qs]"
proof (induction qs arbitrary: i)
  case Nil
  show ?case by simp
next
  case (Cons q qs)
  show ?case
    by (simp add: Cons.IH ids_from question_row_of_def del: upt_Suc)
qed

lemma new_questions_refs: "map q_batch_id (new_questions b i qs) = replicate (length qs) b"
  by (induction qs arbitrary: i) (simp_all add: question_row_of_def)

lemma option_rows_keys:
  "map qo_option_id (option_rows q n a opts) = map (\<lambda>k. n + int k) [0..<length opts]"
proof (induction opts arbitrary: n)
  case Nil
  show ?case by simp
next
  case (Cons opt opts)
  show ?case
    by (simp add: Cons.IH ids_from del: upt_Suc)
qed

lemma new_options_ids:
  "map qo_option_id (new_options i n qs)
     = map (\<lambda>k. n + int k) [0..<sum_list (map (\<lambda>q. length (qd_options q)) qs)]"
proof (induction qs arbitrary: i n)
  case Nil
  show ?case by simp
next
  case (Cons q qs)
  show ?case
    by (simp add: Cons.IH option_rows_keys ids_from_add)
qed

lemma option_rows_ref: "qo \<in> set (option_rows q n a opts) \<Longrightarrow> qo_question_id qo = q"
  by (induction opts arbitrary: n) auto

lemma new_options_refs:
  "qo \<in> set (new_options i n qs) \<Longrightarrow>
   i \<le> qo_question_id qo \<and> qo_question_id qo < i + int (length qs)"
proof (induction qs arbitrary: i n)
  case Nil
  then show ?case by simp
next
  case (Cons q qs)
  from Cons.prems consider
      (a) "qo \<in> set (option_rows i n (qd_answer q) (qd_options q))"
    | (b) "qo \<in> set (new_options (i + 1) (n + int (length (qd_options q))) qs)"
    by auto
  then show ?case
  proof cases
    case a
    then show ?thesis by (simp add: option_rows_ref)
  next
    case b
    from Cons.IH [OF b] show ?thesis by simp
  qed
qed

text \<open>A question-set call in which no statement is rejected keeps the store well formed.\<close>

lemma store_wf_post_questions:
  assumes "store_wf s"
  shows "store_wf (snd (post_questions no_faults n1 n2 gemini s))"
proof (cases "gemini (grammar_sample n1 s) (kanji_sample n2 s)")
  case (Inl err)
  have "snd (post_questions no_faults n1 n2 gemini s) = s"
    by (cases err)
       (simp add: post_questions_def Let_def no_faults_def insert_batch_def run_query_def
          INSERT_QuestionBatch_def Inl tx_begin_def tx_rollback_def)
  with assms show ?thesis by simp
next
  case (Inr qs)
  let ?l = "sum_list (map (\<lambda>q. length (qd_options q)) qs)"
  have b: "keys_ok (map qb_batch_id (QuestionBatch s) @ [next_batch_id s]) (next_batch_id s + 1)"
    using keys_ok_append_fresh [of "map qb_batch_id (QuestionBatch s)" "next_batch_id s" 1]
      assms by (simp add: store_wf_def)
  have q: "keys_ok (map q_question_id (questions s)
              @ map q_question_id (new_questions (next_batch_id s) (next_question_id s) qs))
            (next_question_id s + int (length qs))"
    unfolding new_questions_ids
    using assms by (intro keys_ok_append_fresh) (simp_all add: store_wf_def)
  have qr: "refs_ok (map q_batch_id (questions s)
              @ map q_batch_id (new_questions (next_batch_id s) (next_question_id s) qs))
            (next_batch_id s + 1)"
    using assms refs_ok_mono [of "map q_batch_id (questions s)" "next_batch_id s" "next_batch_id s + 1"]
    by (simp add: refs_ok_append new_questions_refs store_wf_def) (simp add: refs_ok_def)
  have o: "keys_ok (map qo_option_id (question_options s)
              @ map qo_option_id (new_options (next_question_id s) (next_option_id s) qs))
            (next_option_id s + int ?l)"
    unfolding new_options_ids
    using assms by (intro keys_ok_append_fresh) (simp_all add: store_wf_def)
  have "refs_ok (map qo_question_id (new_options (next_question_id s) (next_option_id s) qs))
          (next_question_id s + int (length qs))"
    using assms by (fastforce simp: refs_ok_def store_wf_def dest: new_options_refs)
  then have or: "refs_ok (map qo_question_id (question_options s)
              @ map qo_question_id (new_options (next_question_id s) (next_option_id s) qs))
            (next_question_id s + int (length qs))"
    using assms refs_ok_mono [of "map qo_question_id (question_options s)" "next_question_id s"
        "next_question_id s + int (length qs)"]
    by (simp add: refs_ok_append store_wf_def)
  show ?thesis
    using assms b q qr o or
    by (simp add: post_questions_no_faults [of gemini n1 s n2 qs, OF Inr] store_wf_def)
qed

end
